theory Spec2Isabelle
  imports Main "HOL-Library.Word"
begin

unbundle bit_operations_syntax

section \<open>The Oceanic Veo 250 backend (src/oceanic\_veo250.c)\<close>

text \<open>
  The theory embeds the functions of \<^verbatim>\<open>oceanic_veo250.c\<close>: the send routine, the frame
  transfer with its retry loop, init and handshake, and the four backend operations
  version, read, dump and close. A C \<^verbatim>\<open>unsigned char\<close> is an \<open>8 word\<close>, a C
  \<^verbatim>\<open>unsigned int\<close> a \<open>32 word\<close>, a C \<^verbatim>\<open>int\<close> return count an \<open>int\<close>. Buffers
  are byte lists; a function that writes through a pointer returns the buffer it wrote.
  The diagnostic output (\<^verbatim>\<open>WARNING\<close>, \<^verbatim>\<open>message\<close>) changes no value and is left out.
  A failed \<^verbatim>\<open>assert\<close> ends the process: it is the outcome \<open>Aborted\<close>.

  The constants \<^verbatim>\<open>OCEANIC_VEO250_PACKET_SIZE\<close> and \<^verbatim>\<open>OCEANIC_VEO250_MEMORY_SIZE\<close> come
  from \<^verbatim>\<open>oceanic_veo250.h\<close>, which is not among the sources: every function that uses
  one takes it as its first argument, \<open>PACKET_SIZE\<close> or \<open>MEMORY_SIZE\<close>, a natural
  number. The counter \<^verbatim>\<open>nretries\<close> never exceeds \<open>MAXRETRIES + 1\<close> and is a natural
  number too.
\<close>

type_synonym byte = "8 word"
type_synonym uint = "32 word"

subsection \<open>Status codes and constants\<close>

text \<open>The status codes of \<^verbatim>\<open>device.h\<close> that this file returns.\<close>

datatype device_status_t =
    DEVICE_STATUS_SUCCESS
  | DEVICE_STATUS_ERROR
  | DEVICE_STATUS_IO
  | DEVICE_STATUS_MEMORY
  | DEVICE_STATUS_PROTOCOL
  | DEVICE_STATUS_TIMEOUT
  | DEVICE_STATUS_TYPE_MISMATCH

datatype outcome = Aborted | Returned device_status_t

definition MAXRETRIES :: nat where
  "MAXRETRIES = 2"

definition ACK :: byte where
  "ACK = 0x5A"

definition NAK :: byte where
  "NAK = 0xA5"

definition EXITCODE :: "int \<Rightarrow> device_status_t" where
  "EXITCODE rc = (if rc = - 1 then DEVICE_STATUS_IO else DEVICE_STATUS_TIMEOUT)"

subsection \<open>The serial port\<close>

text \<open>
  Modelled from the spec: the functions of \<^verbatim>\<open>serial.h\<close> are not among the sources.
  The specification (2, 6, 9) gives the transport as a byte channel whose write, drain,
  read and close return a count or a failure indicator, the read possibly a partial count
  on timeout and -1 on failure. The port is the environment of this file. Its state is a
  script of what each coming call will answer, and a trace of the calls made so far:
  \<^item> \<open>incoming\<close>: one entry for each coming \<^verbatim>\<open>serial_read\<close>; \<open>Fails\<close> makes the
    call return -1, \<open>Delivers bs\<close> makes it store the bytes \<open>bs\<close> (at most the
    requested number of them) and return their count. With the script used up a read
    times out with no byte (count 0).
  \<^item> \<open>write_results\<close>, \<open>drain_results\<close>: the return values of the coming
    \<^verbatim>\<open>serial_write\<close> and \<^verbatim>\<open>serial_drain\<close> calls; with the list used up a write
    returns the number of bytes given and a drain returns 0.
  \<^item> \<open>close_result\<close>: the return value of \<^verbatim>\<open>serial_close\<close>.
\<close>

datatype reply = Fails | Delivers "byte list"

datatype event =
    SerialWrite "byte list"
  | SerialDrain
  | SerialRead nat int "byte list"
  | SerialClose

record serial =
  incoming :: "reply list"
  write_results :: "int list"
  drain_results :: "int list"
  close_result :: int
  trace :: "event list"

text \<open>
  A port that answers the coming reads by the script \<open>rs\<close>, on which every write, every
  drain and the close succeed, and on which no call has been made.
\<close>

definition script_port :: "reply list \<Rightarrow> serial" where
  "script_port rs =
     \<lparr>incoming = rs, write_results = [], drain_results = [], close_result = 0, trace = []\<rparr>"

definition serial_write :: "serial \<Rightarrow> byte list \<Rightarrow> int \<times> serial" where
  "serial_write p bs =
     (case write_results p of
        [] \<Rightarrow> (int (length bs), p\<lparr>trace := trace p @ [SerialWrite bs]\<rparr>)
      | r # rs \<Rightarrow> (r, p\<lparr>write_results := rs, trace := trace p @ [SerialWrite bs]\<rparr>))"

definition serial_drain :: "serial \<Rightarrow> int \<times> serial" where
  "serial_drain p =
     (case drain_results p of
        [] \<Rightarrow> (0, p\<lparr>trace := trace p @ [SerialDrain]\<rparr>)
      | r # rs \<Rightarrow> (r, p\<lparr>drain_results := rs, trace := trace p @ [SerialDrain]\<rparr>))"

text \<open>
  \<open>serial_read p buf len\<close> reads into the buffer \<open>buf\<close> (of at least \<open>len\<close> bytes at
  every call of this file): the bytes delivered overwrite its front, the rest stays.
\<close>

definition serial_read :: "serial \<Rightarrow> byte list \<Rightarrow> nat \<Rightarrow> int \<times> byte list \<times> serial" where
  "serial_read p buf len =
     (case incoming p of
        [] \<Rightarrow> (0, buf, p\<lparr>trace := trace p @ [SerialRead len 0 []]\<rparr>)
      | Fails # rest \<Rightarrow>
          (- 1, buf, p\<lparr>incoming := rest, trace := trace p @ [SerialRead len (- 1) []]\<rparr>)
      | Delivers bs # rest \<Rightarrow>
          (int (length (take len bs)), take len bs @ drop (length (take len bs)) buf,
           p\<lparr>incoming := rest,
             trace := trace p @ [SerialRead len (int (length (take len bs))) (take len bs)]\<rparr>))"

definition serial_close :: "serial \<Rightarrow> int \<times> serial" where
  "serial_close p = (close_result p, p\<lparr>trace := trace p @ [SerialClose]\<rparr>)"

subsection \<open>The device handle\<close>

text \<open>
  A \<^verbatim>\<open>device_t *\<close> is \<open>None\<close> when it is \<^verbatim>\<open>NULL\<close>; otherwise it points to an object
  whose \<open>backend\<close> field is the address of a backend table, and the test of
  \<^verbatim>\<open>device_is_oceanic_veo250\<close> compares that address.
\<close>

datatype backend_ptr = oceanic_veo250_device_backend | other_device_backend nat

record device =
  backend :: backend_ptr
  port :: serial

definition device_is_oceanic_veo250 :: "device option \<Rightarrow> bool" where
  "device_is_oceanic_veo250 abstract =
     (case abstract of
        None \<Rightarrow> False
      | Some d \<Rightarrow> backend d = oceanic_veo250_device_backend)"

text \<open>
  The script of a device that answers one transfer after the other: for each pair
  \<open>(k, frame)\<close> it answers the acknowledgement read with NAK \<open>k\<close> times, then with
  ACK, and then delivers \<open>frame\<close>.
\<close>

fun answers_script :: "(nat \<times> byte list) list \<Rightarrow> reply list" where
  "answers_script [] = []"
| "answers_script ((k, frame) # xs) =
     replicate k (Delivers [NAK]) @ Delivers [ACK] # Delivers frame # answers_script xs"

text \<open>A Veo 250 device object whose port is \<open>script_port rs\<close>.\<close>

definition veo250 :: "reply list \<Rightarrow> device" where
  "veo250 rs = \<lparr>backend = oceanic_veo250_device_backend, port = script_port rs\<rparr>"

subsection \<open>Checksum and memcpy\<close>

text \<open>
  Modelled from the spec: \<^verbatim>\<open>checksum_add_uint8\<close> is declared in \<^verbatim>\<open>checksum.h\<close>, which is
  not among the sources. The specification (4.1) gives it as the sum of all bytes plus
  the seed, truncated to 8 bits.
\<close>

definition checksum_add_uint8 :: "byte list \<Rightarrow> nat \<Rightarrow> byte \<Rightarrow> byte" where
  "checksum_add_uint8 data sz init = foldl (+) init (take sz data)"

text \<open>
  \<open>memcpy_at dst off src n\<close> is \<^verbatim>\<open>memcpy (dst + off, src, n)\<close>. The C call is defined
  only when \<open>off + n \<le> length dst\<close> and \<open>n \<le> length src\<close>; the theorems below assume
  a destination that large.
\<close>

definition memcpy_at :: "byte list \<Rightarrow> nat \<Rightarrow> byte list \<Rightarrow> nat \<Rightarrow> byte list" where
  "memcpy_at dst off src n = take off dst @ take n src @ drop (off + n) dst"

subsection \<open>Send and frame transfer\<close>

text \<open>The results of \<^verbatim>\<open>serial_write\<close> and \<^verbatim>\<open>serial_drain\<close> are not looked at.\<close>

definition oceanic_veo250_send :: "serial \<Rightarrow> byte list \<Rightarrow> device_status_t \<times> serial" where
  "oceanic_veo250_send p command =
     (case serial_write p command of
        (_, p1) \<Rightarrow> (case serial_drain p1 of (_, p2) \<Rightarrow> (DEVICE_STATUS_SUCCESS, p2)))"

text \<open>
  The \<^verbatim>\<open>while (response == NAK)\<close> loop of the transfer. \<open>Inl rc\<close> is a \<^verbatim>\<open>return rc\<close>
  from inside the loop, \<open>Inr response\<close> is the loop left (by its condition or by
  \<^verbatim>\<open>break\<close>) with that last response byte.
\<close>

function transfer_loop ::
  "serial \<Rightarrow> byte list \<Rightarrow> nat \<Rightarrow> byte \<Rightarrow> (device_status_t + byte) \<times> serial" where
  "transfer_loop p command nretries response =
     (if response = NAK then
        (case oceanic_veo250_send p command of
           (rc, p1) \<Rightarrow>
             if rc \<noteq> DEVICE_STATUS_SUCCESS then (Inl rc, p1)
             else
               (case serial_read p1 [response] 1 of
                  (n, buf, p2) \<Rightarrow>
                    if n \<noteq> 1 then (Inl (EXITCODE n), p2)
                    else if nretries \<ge> MAXRETRIES
                      then (Inr (case buf of [] \<Rightarrow> response | r # _ \<Rightarrow> r), p2)
                      else transfer_loop p2 command (nretries + 1)
                             (case buf of [] \<Rightarrow> response | r # _ \<Rightarrow> r)))
      else (Inr response, p))"
  by pat_completeness auto
termination
  by (relation "measure (\<lambda>(p, command, nretries, response). MAXRETRIES + 1 - nretries)")
     (auto simp: MAXRETRIES_def)

text \<open>
  The answer buffer carries its size: \<open>asize\<close> is \<open>length answer\<close>, as at both calls
  (\<^verbatim>\<open>sizeof (answer)\<close>).
\<close>

definition oceanic_veo250_transfer ::
  "nat \<Rightarrow> serial \<Rightarrow> byte list \<Rightarrow> byte list \<Rightarrow> outcome \<times> byte list \<times> serial" where
  "oceanic_veo250_transfer PACKET_SIZE p command answer =
     (if length answer \<noteq> PACKET_SIZE + 2 then (Aborted, answer, p)
      else
        (case transfer_loop p command 0 NAK of
           (Inl rc, p1) \<Rightarrow> (Returned rc, answer, p1)
         | (Inr response, p1) \<Rightarrow>
             if response \<noteq> ACK then (Returned DEVICE_STATUS_PROTOCOL, answer, p1)
             else
               (case serial_read p1 answer (PACKET_SIZE + 2) of
                  (n, answer', p2) \<Rightarrow>
                    if n \<noteq> int (PACKET_SIZE + 2) then (Returned (EXITCODE n), answer', p2)
                    else if answer' ! PACKET_SIZE
                            \<noteq> checksum_add_uint8 answer' PACKET_SIZE 0x00
                      then (Returned DEVICE_STATUS_PROTOCOL, answer', p2)
                    else if answer' ! (PACKET_SIZE + 1) \<noteq> NAK
                      then (Returned DEVICE_STATUS_PROTOCOL, answer', p2)
                    else (Returned DEVICE_STATUS_SUCCESS, answer', p2))))"

subsection \<open>Init and handshake\<close>

definition oceanic_veo250_init :: "serial \<Rightarrow> device_status_t \<times> serial" where
  "oceanic_veo250_init p =
     (case oceanic_veo250_send p [0x55, 0x00] of
        (rc, p1) \<Rightarrow>
          if rc \<noteq> DEVICE_STATUS_SUCCESS then (rc, p1)
          else (DEVICE_STATUS_SUCCESS, p1))"

text \<open>The banner \<^verbatim>\<open>"PPS--OK_V2.00"\<close> with its closing zero byte.\<close>

definition handshake_response :: "byte list" where
  "handshake_response =
     [0x50, 0x50, 0x53, 0x2D, 0x2D, 0x4F, 0x4B,
      0x5F, 0x56, 0x32, 0x2E, 0x30, 0x30, 0x00]"

definition oceanic_veo250_handshake :: "serial \<Rightarrow> device_status_t \<times> serial" where
  "oceanic_veo250_handshake p =
     (case oceanic_veo250_send p [0x98, 0x00] of
        (rc, p1) \<Rightarrow>
          if rc \<noteq> DEVICE_STATUS_SUCCESS then (rc, p1)
          else
            (case serial_read p1 (replicate 14 0) 14 of
               (n, answer, p2) \<Rightarrow>
                 if n \<noteq> 14 then (EXITCODE n, p2)
                 else if answer \<noteq> handshake_response then (DEVICE_STATUS_PROTOCOL, p2)
                 else (DEVICE_STATUS_SUCCESS, p2)))"

subsection \<open>The backend operations\<close>

text \<open>
  Each operation returns its status, the caller's buffer where it has one, and the
  object the handle points to as the call leaves it. The branch for a \<^verbatim>\<open>NULL\<close>
  handle after the type test is never taken: the test has returned already.

  \<open>oceanic_veo250_device_close\<close> returns also whether the object was freed.
\<close>

definition oceanic_veo250_device_close ::
  "device option \<Rightarrow> device_status_t \<times> device option \<times> bool" where
  "oceanic_veo250_device_close abstract =
     (if \<not> device_is_oceanic_veo250 abstract
      then (DEVICE_STATUS_TYPE_MISMATCH, abstract, False)
      else
        (case abstract of
           None \<Rightarrow> (DEVICE_STATUS_TYPE_MISMATCH, abstract, False)
         | Some device \<Rightarrow>
             (case oceanic_veo250_handshake (port device) of
                (_, p1) \<Rightarrow>
                  (case serial_close p1 of
                     (rc, p2) \<Rightarrow>
                       if rc = - 1 then (DEVICE_STATUS_IO, Some (device\<lparr>port := p2\<rparr>), True)
                       else (DEVICE_STATUS_SUCCESS, Some (device\<lparr>port := p2\<rparr>), True)))))"

definition oceanic_veo250_device_version ::
  "nat \<Rightarrow> device option \<Rightarrow> byte list \<Rightarrow> uint \<Rightarrow> outcome \<times> byte list \<times> device option" where
  "oceanic_veo250_device_version PACKET_SIZE abstract data sz =
     (if \<not> device_is_oceanic_veo250 abstract
      then (Returned DEVICE_STATUS_TYPE_MISMATCH, data, abstract)
      else
        (case abstract of
           None \<Rightarrow> (Returned DEVICE_STATUS_TYPE_MISMATCH, data, abstract)
         | Some device \<Rightarrow>
             if sz < of_nat PACKET_SIZE then (Returned DEVICE_STATUS_MEMORY, data, abstract)
             else
               (case oceanic_veo250_transfer PACKET_SIZE (port device) [0x90, 0x00]
                       (replicate (PACKET_SIZE + 2) 0) of
                  (rc, answer, p1) \<Rightarrow>
                    if rc \<noteq> Returned DEVICE_STATUS_SUCCESS
                    then (rc, data, Some (device\<lparr>port := p1\<rparr>))
                    else (Returned DEVICE_STATUS_SUCCESS,
                          memcpy_at data 0 answer PACKET_SIZE,
                          Some (device\<lparr>port := p1\<rparr>)))))"

text \<open>The 6-byte read command for the packet \<open>number\<close>.\<close>

definition read_command :: "uint \<Rightarrow> byte list" where
  "read_command number =
     [0x20,
      ucast (number AND 0xFF),
      ucast (drop_bit 8 number AND 0xFF),
      ucast (number AND 0xFF),
      ucast (drop_bit 8 number AND 0xFF),
      0]"

text \<open>
  The \<^verbatim>\<open>while (nbytes < size)\<close> loop of the read. The pointer \<^verbatim>\<open>data\<close> that the loop
  advances is the caller's buffer \<open>data\<close> with the offset \<open>off\<close>. The loop leaves by
  its condition or by the \<^verbatim>\<open>return rc\<close> of a failed transfer; where it never leaves,
  the value is \<open>None\<close>.
\<close>

partial_function (option) read_loop ::
  "nat \<Rightarrow> serial \<Rightarrow> uint \<Rightarrow> byte list \<Rightarrow> nat \<Rightarrow> uint \<Rightarrow> uint
     \<Rightarrow> (outcome \<times> byte list \<times> serial) option" where
  "read_loop PACKET_SIZE p address data off sz nbytes =
     (if nbytes < sz then
        (case oceanic_veo250_transfer PACKET_SIZE p
                (read_command (address div of_nat PACKET_SIZE))
                (replicate (PACKET_SIZE + 2) 0) of
           (rc, answer, p1) \<Rightarrow>
             if rc \<noteq> Returned DEVICE_STATUS_SUCCESS then Some (rc, data, p1)
             else read_loop PACKET_SIZE p1 (address + of_nat PACKET_SIZE)
                    (memcpy_at data off answer PACKET_SIZE) (off + PACKET_SIZE)
                    sz (nbytes + of_nat PACKET_SIZE))
      else Some (Returned DEVICE_STATUS_SUCCESS, data, p))"

declare read_loop.simps [code]

definition oceanic_veo250_device_read ::
  "nat \<Rightarrow> device option \<Rightarrow> uint \<Rightarrow> byte list \<Rightarrow> uint
     \<Rightarrow> (outcome \<times> byte list \<times> device option) option" where
  "oceanic_veo250_device_read PACKET_SIZE abstract address data sz =
     (if \<not> device_is_oceanic_veo250 abstract
      then Some (Returned DEVICE_STATUS_TYPE_MISMATCH, data, abstract)
      else
        (case abstract of
           None \<Rightarrow> Some (Returned DEVICE_STATUS_TYPE_MISMATCH, data, abstract)
         | Some device \<Rightarrow>
             if address mod of_nat PACKET_SIZE \<noteq> 0 then Some (Aborted, data, abstract)
             else if sz mod of_nat PACKET_SIZE \<noteq> 0 then Some (Aborted, data, abstract)
             else
               (case read_loop PACKET_SIZE (port device) address data 0 sz 0 of
                  None \<Rightarrow> None
                | Some (rc, data', p1) \<Rightarrow> Some (rc, data', Some (device\<lparr>port := p1\<rparr>)))))"

text \<open>
  The out-parameter \<^verbatim>\<open>result\<close> is \<open>None\<close> for a \<^verbatim>\<open>NULL\<close> pointer and \<open>Some v\<close> for
  a pointer to a location that holds \<open>v\<close>.
\<close>

definition oceanic_veo250_device_dump ::
  "nat \<Rightarrow> nat \<Rightarrow> device option \<Rightarrow> byte list \<Rightarrow> uint \<Rightarrow> uint option
     \<Rightarrow> (outcome \<times> byte list \<times> device option \<times> uint option) option" where
  "oceanic_veo250_device_dump PACKET_SIZE MEMORY_SIZE abstract data sz result =
     (if \<not> device_is_oceanic_veo250 abstract
      then Some (Returned DEVICE_STATUS_TYPE_MISMATCH, data, abstract, result)
      else if sz < of_nat MEMORY_SIZE
      then Some (Returned DEVICE_STATUS_ERROR, data, abstract, result)
      else
        (case oceanic_veo250_device_read PACKET_SIZE abstract 0x00 data (of_nat MEMORY_SIZE) of
           None \<Rightarrow> None
         | Some (rc, data', abstract') \<Rightarrow>
             if rc \<noteq> Returned DEVICE_STATUS_SUCCESS then Some (rc, data', abstract', result)
             else Some (Returned DEVICE_STATUS_SUCCESS, data', abstract',
                        (case result of None \<Rightarrow> None | Some _ \<Rightarrow> Some (of_nat MEMORY_SIZE)))))"

subsection \<open>What a trace shows\<close>

text \<open>
  The commands written, in order, and the payloads of the answer frames that were read in
  full and passed both checks of the transfer.
\<close>

fun writes :: "event list \<Rightarrow> byte list list" where
  "writes [] = []"
| "writes (SerialWrite c # es) = c # writes es"
| "writes (SerialDrain # es) = writes es"
| "writes (SerialRead len n bs # es) = writes es"
| "writes (SerialClose # es) = writes es"

definition frame_ok :: "nat \<Rightarrow> byte list \<Rightarrow> bool" where
  "frame_ok PACKET_SIZE frame =
     (frame ! PACKET_SIZE = checksum_add_uint8 frame PACKET_SIZE 0x00
      \<and> frame ! (PACKET_SIZE + 1) = NAK)"

fun payloads :: "nat \<Rightarrow> event list \<Rightarrow> byte list list" where
  "payloads PACKET_SIZE [] = []"
| "payloads PACKET_SIZE (SerialWrite c # es) = payloads PACKET_SIZE es"
| "payloads PACKET_SIZE (SerialDrain # es) = payloads PACKET_SIZE es"
| "payloads PACKET_SIZE (SerialRead len n bs # es) =
     (if len = PACKET_SIZE + 2 \<and> n = int len \<and> frame_ok PACKET_SIZE bs
      then take PACKET_SIZE bs # payloads PACKET_SIZE es
      else payloads PACKET_SIZE es)"
| "payloads PACKET_SIZE (SerialClose # es) = payloads PACKET_SIZE es"

text \<open>The calls made on the port between its states \<open>p\<close> and \<open>p'\<close>.\<close>

definition issued :: "serial \<Rightarrow> serial \<Rightarrow> event list" where
  "issued p p' = drop (length (trace p)) (trace p')"

text \<open>
  The read commands of \<open>n\<close> rounds of the read loop that starts at \<open>address\<close>: each
  round asks for the packet \<open>address / PACKET_SIZE\<close> and adds \<open>PACKET_SIZE\<close> to the
  address, in 32-bit arithmetic.
\<close>

fun packet_commands :: "nat \<Rightarrow> uint \<Rightarrow> nat \<Rightarrow> byte list list" where
  "packet_commands PACKET_SIZE address 0 = []"
| "packet_commands PACKET_SIZE address (Suc n) =
     read_command (address div of_nat PACKET_SIZE)
       # packet_commands PACKET_SIZE (address + of_nat PACKET_SIZE) n"

section \<open>Auxiliary facts\<close>

subsection \<open>Traces, send and read\<close>

declare transfer_loop.simps [simp del]

lemma writes_append: "writes (xs @ ys) = writes xs @ writes ys"
  by (induction xs rule: writes.induct) simp_all

lemma payloads_append: "payloads n (xs @ ys) = payloads n xs @ payloads n ys"
  by (induction n xs rule: payloads.induct) simp_all

lemma send_status: "fst (oceanic_veo250_send p c) = DEVICE_STATUS_SUCCESS"
  by (simp add: oceanic_veo250_send_def split: prod.splits)

lemma send_incoming: "incoming (snd (oceanic_veo250_send p c)) = incoming p"
  by (simp add: oceanic_veo250_send_def serial_write_def serial_drain_def split: prod.splits list.splits)

lemma send_close_result: "close_result (snd (oceanic_veo250_send p c)) = close_result p"
  by (simp add: oceanic_veo250_send_def serial_write_def serial_drain_def split: prod.splits list.splits)

lemma send_trace: "trace (snd (oceanic_veo250_send p c)) = trace p @ [SerialWrite c, SerialDrain]"
  by (simp add: oceanic_veo250_send_def serial_write_def serial_drain_def split: prod.splits list.splits)

lemma send_eq: "oceanic_veo250_send p c = (rc, p1) \<Longrightarrow>
   rc = DEVICE_STATUS_SUCCESS \<and> incoming p1 = incoming p \<and> close_result p1 = close_result p
   \<and> trace p1 = trace p @ [SerialWrite c, SerialDrain]"
  using send_status [of p c] send_incoming [of p c] send_close_result [of p c] send_trace [of p c]
  by simp

lemma read_eq: "serial_read p buf len = (n, buf', p1) \<Longrightarrow>
   close_result p1 = close_result p \<and> incoming p1 = tl (incoming p) \<and>
   (len \<le> length buf \<longrightarrow> length buf' = length buf) \<and>
   (\<exists>bs. trace p1 = trace p @ [SerialRead len n bs] \<and> (n = int len \<longrightarrow> take len buf' = bs))"
  by (auto simp: serial_read_def split: list.splits reply.splits)

subsection \<open>The retry loop\<close>

lemma EXITCODE_not_success [simp]:
  "EXITCODE n \<noteq> DEVICE_STATUS_SUCCESS" "DEVICE_STATUS_SUCCESS \<noteq> EXITCODE n"
  by (simp_all add: EXITCODE_def)

lemma loop_trace:
  "transfer_loop p command nretries response = (res, p') \<Longrightarrow>
   \<exists>es k. trace p' = trace p @ es \<and> close_result p' = close_result p
     \<and> writes es = replicate k command
     \<and> (response = NAK \<longrightarrow> 1 \<le> k)
     \<and> (nretries \<le> MAXRETRIES \<longrightarrow> k + nretries \<le> MAXRETRIES + 1)
     \<and> payloads PACKET_SIZE es = []
     \<and> (\<forall>len n bs. SerialRead len n bs \<in> set es \<longrightarrow>
           len = 1 \<and> (n \<noteq> 1 \<longrightarrow> res = Inl (EXITCODE n) \<and> last es = SerialRead len n bs))
     \<and> (\<forall>rc. res = Inl rc \<longrightarrow> rc \<noteq> DEVICE_STATUS_SUCCESS)"
proof (induction p command nretries response arbitrary: res p' rule: transfer_loop.induct)
  case (1 p command nretries response)
  show ?case
  proof (cases "response = NAK")
    case False
    with "1.prems" have "res = Inr response" "p' = p"
      by (simp_all add: transfer_loop.simps)
    then have "trace p' = trace p @ [] \<and> close_result p' = close_result p
       \<and> writes [] = replicate 0 command
       \<and> (response = NAK \<longrightarrow> 1 \<le> (0::nat))
       \<and> (nretries \<le> MAXRETRIES \<longrightarrow> 0 + nretries \<le> MAXRETRIES + 1)
       \<and> payloads PACKET_SIZE [] = []
       \<and> (\<forall>len n bs. SerialRead len n bs \<in> set [] \<longrightarrow>
           len = 1 \<and> (n \<noteq> 1 \<longrightarrow> res = Inl (EXITCODE n) \<and> last [] = SerialRead len n bs))
       \<and> (\<forall>rc. res = Inl rc \<longrightarrow> rc \<noteq> DEVICE_STATUS_SUCCESS)"
      using False by simp
    then show ?thesis by blast
  next
    case True
    obtain rc p1 where snd: "oceanic_veo250_send p command = (rc, p1)"
      by (cases "oceanic_veo250_send p command")
    note s = send_eq [OF snd]
    obtain n buf p2 where rd: "serial_read p1 [response] 1 = (n, buf, p2)"
      by (cases "serial_read p1 [response] 1") auto
    from read_eq [OF rd] obtain bs where
      r: "close_result p2 = close_result p1" "trace p2 = trace p1 @ [SerialRead 1 n bs]"
      by blast
    let ?e = "[SerialWrite command, SerialDrain, SerialRead 1 n bs]"
    have tr2: "trace p2 = trace p @ ?e" using s r by simp
    have cr2: "close_result p2 = close_result p" using s r by simp
    let ?r' = "case buf of [] \<Rightarrow> response | r # x \<Rightarrow> r"
    have unf: "transfer_loop p command nretries response =
        (if n \<noteq> 1 then (Inl (EXITCODE n), p2)
         else if nretries \<ge> MAXRETRIES then (Inr ?r', p2)
         else transfer_loop p2 command (nretries + 1) ?r')"
      using True snd rd s by (subst transfer_loop.simps) simp
    show ?thesis
    proof (cases "n \<noteq> 1 \<or> nretries \<ge> MAXRETRIES")
      case stop: True
      then have res: "p' = p2" "n \<noteq> 1 \<longrightarrow> res = Inl (EXITCODE n)" "n = 1 \<longrightarrow> res = Inr ?r'"
        using unf "1.prems" by (auto split: if_splits)
      have "trace p' = trace p @ ?e \<and> close_result p' = close_result p
       \<and> writes ?e = replicate 1 command
       \<and> (response = NAK \<longrightarrow> 1 \<le> (1::nat))
       \<and> (nretries \<le> MAXRETRIES \<longrightarrow> 1 + nretries \<le> MAXRETRIES + 1)
       \<and> payloads PACKET_SIZE ?e = []
       \<and> (\<forall>len n' bs'. SerialRead len n' bs' \<in> set ?e \<longrightarrow>
           len = 1 \<and> (n' \<noteq> 1 \<longrightarrow> res = Inl (EXITCODE n') \<and> last ?e = SerialRead len n' bs'))
       \<and> (\<forall>rc. res = Inl rc \<longrightarrow> rc \<noteq> DEVICE_STATUS_SUCCESS)"
        using res tr2 cr2 by auto
      then show ?thesis by blast
    next
      case go: False
      then have n1: "n = 1" and lt: "\<not> MAXRETRIES \<le> nretries" by auto
      have rec: "transfer_loop p2 command (nretries + 1) ?r' = (res, p')"
        using unf "1.prems" n1 lt by simp
      have "\<exists>es k. trace p' = trace p2 @ es \<and> close_result p' = close_result p2
         \<and> writes es = replicate k command
         \<and> (?r' = NAK \<longrightarrow> 1 \<le> k)
         \<and> (nretries + 1 \<le> MAXRETRIES \<longrightarrow> k + (nretries + 1) \<le> MAXRETRIES + 1)
         \<and> payloads PACKET_SIZE es = []
         \<and> (\<forall>len n bs. SerialRead len n bs \<in> set es \<longrightarrow>
           len = 1 \<and> (n \<noteq> 1 \<longrightarrow> res = Inl (EXITCODE n) \<and> last es = SerialRead len n bs))
         \<and> (\<forall>rc. res = Inl rc \<longrightarrow> rc \<noteq> DEVICE_STATUS_SUCCESS)"
        using "1.IH" [OF True snd [symmetric] _ rd [symmetric] refl _ lt rec] s n1 by simp
      then obtain es k where ih:
        "trace p' = trace p2 @ es" "close_result p' = close_result p2"
        "writes es = replicate k command"
        "nretries + 1 \<le> MAXRETRIES \<longrightarrow> k + (nretries + 1) \<le> MAXRETRIES + 1"
        "payloads PACKET_SIZE es = []"
        "\<forall>len n bs. SerialRead len n bs \<in> set es \<longrightarrow>
           len = 1 \<and> (n \<noteq> 1 \<longrightarrow> res = Inl (EXITCODE n) \<and> last es = SerialRead len n bs)"
        "\<forall>rc. res = Inl rc \<longrightarrow> rc \<noteq> DEVICE_STATUS_SUCCESS"
        by blast
      have last: "\<And>x. x \<in> set es \<Longrightarrow> last (?e @ es) = last es"
        by auto
      have "trace p' = trace p @ (?e @ es) \<and> close_result p' = close_result p
       \<and> writes (?e @ es) = replicate (Suc k) command
       \<and> (response = NAK \<longrightarrow> 1 \<le> Suc k)
       \<and> (nretries \<le> MAXRETRIES \<longrightarrow> Suc k + nretries \<le> MAXRETRIES + 1)
       \<and> payloads PACKET_SIZE (?e @ es) = []
       \<and> (\<forall>len n' bs'. SerialRead len n' bs' \<in> set (?e @ es) \<longrightarrow>
           len = 1 \<and> (n' \<noteq> 1 \<longrightarrow> res = Inl (EXITCODE n') \<and> last (?e @ es) = SerialRead len n' bs'))
       \<and> (\<forall>rc. res = Inl rc \<longrightarrow> rc \<noteq> DEVICE_STATUS_SUCCESS)"
        using ih tr2 cr2 n1 lt last by (auto simp: writes_append payloads_append)
      then show ?thesis by blast
    qed
  qed
qed

subsection \<open>The frame transfer\<close>

lemma transfer_trace:
  assumes t: "oceanic_veo250_transfer PACKET_SIZE p command answer = (rc, answer', p')"
    and len: "length answer = PACKET_SIZE + 2"
  shows "\<exists>es k. trace p' = trace p @ es \<and> close_result p' = close_result p
     \<and> writes es = replicate k command \<and> 1 \<le> k \<and> k \<le> MAXRETRIES + 1
     \<and> length answer' = PACKET_SIZE + 2
     \<and> payloads PACKET_SIZE es =
          (if rc = Returned DEVICE_STATUS_SUCCESS then [take PACKET_SIZE answer'] else [])
     \<and> rc \<noteq> Aborted
     \<and> (\<forall>len n bs. SerialRead len n bs \<in> set es \<longrightarrow> n \<noteq> int len \<longrightarrow>
           rc = Returned (EXITCODE n) \<and> last es = SerialRead len n bs)
     \<and> (\<forall>len n bs. SerialRead len n bs \<in> set es \<longrightarrow> len = 1 \<or> len = PACKET_SIZE + 2)"
proof -
  obtain res p1 where lp: "transfer_loop p command 0 NAK = (res, p1)"
    by (cases "transfer_loop p command 0 NAK")
  from loop_trace [OF lp, of PACKET_SIZE] obtain es k where l:
    "trace p1 = trace p @ es" "close_result p1 = close_result p"
    "writes es = replicate k command" "1 \<le> k" "k \<le> MAXRETRIES + 1"
    "payloads PACKET_SIZE es = []"
    "\<forall>len n bs. SerialRead len n bs \<in> set es \<longrightarrow>
           len = 1 \<and> (n \<noteq> 1 \<longrightarrow> res = Inl (EXITCODE n) \<and> last es = SerialRead len n bs)"
    "\<forall>rc. res = Inl rc \<longrightarrow> rc \<noteq> DEVICE_STATUS_SUCCESS"
    by auto
  show ?thesis
  proof (cases "res = Inr ACK")
    case False
    then have r: "answer' = answer" "p' = p1"
       "rc = (case res of Inl e \<Rightarrow> Returned e | Inr b \<Rightarrow> Returned DEVICE_STATUS_PROTOCOL)"
      using t len lp by (auto simp: oceanic_veo250_transfer_def split: sum.splits if_splits)
    have ns: "rc \<noteq> Returned DEVICE_STATUS_SUCCESS" "rc \<noteq> Aborted"
      using r l(8) by (auto split: sum.splits)
    have sh: "\<forall>len n bs. SerialRead len n bs \<in> set es \<longrightarrow> n \<noteq> int len \<longrightarrow>
           rc = Returned (EXITCODE n) \<and> last es = SerialRead len n bs"
      using l(7) r(3) by fastforce
    have ls: "\<forall>len n bs. SerialRead len n bs \<in> set es \<longrightarrow> len = 1 \<or> len = PACKET_SIZE + 2"
      using l(7) by blast
    have c1: "trace p' = trace p @ es" using l(1) r(2) by simp
    have c2: "close_result p' = close_result p" using l(2) r(2) by simp
    have c6: "length answer' = PACKET_SIZE + 2" using r(1) len by simp
    have c7: "payloads PACKET_SIZE es =
          (if rc = Returned DEVICE_STATUS_SUCCESS then [take PACKET_SIZE answer'] else [])"
      using l(6) ns by simp
    show ?thesis using c1 c2 l(3-5) c6 c7 ns(2) sh ls by blast
  next
    case True
    obtain n buf p2 where rd: "serial_read p1 answer (PACKET_SIZE + 2) = (n, buf, p2)"
      by (cases "serial_read p1 answer (PACKET_SIZE + 2)") auto
    from read_eq [OF rd] len obtain bs where rr:
      "close_result p2 = close_result p1" "length buf = PACKET_SIZE + 2"
      "trace p2 = trace p1 @ [SerialRead (PACKET_SIZE + 2) n bs]"
      "n = int (PACKET_SIZE + 2) \<longrightarrow> take (PACKET_SIZE + 2) buf = bs"
      by auto
    have bs: "n = int (PACKET_SIZE + 2) \<longrightarrow> bs = buf" using rr(2,4) by auto
    have r: "answer' = buf" "p' = p2"
      "rc = (if n \<noteq> int (PACKET_SIZE + 2) then Returned (EXITCODE n)
             else if frame_ok PACKET_SIZE buf then Returned DEVICE_STATUS_SUCCESS
             else Returned DEVICE_STATUS_PROTOCOL)"
      using t len lp True rd
      by (auto simp: oceanic_veo250_transfer_def frame_ok_def split: if_splits)
    let ?e = "[SerialRead (PACKET_SIZE + 2) n bs]"
    have pl: "payloads PACKET_SIZE (es @ ?e) =
          (if rc = Returned DEVICE_STATUS_SUCCESS then [take PACKET_SIZE answer'] else [])"
      using l(6) r bs by (auto simp: payloads_append)
    have inl: "\<And>len n bs. SerialRead len n bs \<in> set es \<Longrightarrow> n = int len"
      using l(7) True by fastforce
    have sh: "\<forall>len n' bs'. SerialRead len n' bs' \<in> set (es @ ?e) \<longrightarrow> n' \<noteq> int len \<longrightarrow>
           rc = Returned (EXITCODE n') \<and> last (es @ ?e) = SerialRead len n' bs'"
    proof (intro allI impI)
      fix len n' bs'
      assume mem: "SerialRead len n' bs' \<in> set (es @ ?e)" and ne: "n' \<noteq> int len"
      from mem inl ne have eq: "len = PACKET_SIZE + 2" "n' = n" "bs' = bs"
        by auto
      with ne r(3) show "rc = Returned (EXITCODE n') \<and> last (es @ ?e) = SerialRead len n' bs'"
        by simp
    qed
    have c1: "trace p' = trace p @ (es @ ?e)" using l(1) rr(3) r(2) by simp
    have c2: "close_result p' = close_result p" using l(2) rr(1) r(2) by simp
    have c3: "writes (es @ ?e) = replicate k command" using l(3) by (simp add: writes_append)
    have c6: "length answer' = PACKET_SIZE + 2" using r(1) rr(2) by simp
    have c8: "rc \<noteq> Aborted" using r(3) by simp
    have ls: "\<forall>len n bs. SerialRead len n bs \<in> set (es @ ?e) \<longrightarrow>
                len = 1 \<or> len = PACKET_SIZE + 2"
      using l(7) by auto
    show ?thesis using c1 c2 c3 l(4,5) c6 pl c8 sh ls by blast
  qed
qed

subsection \<open>Word arithmetic, memcpy and the read command\<close>

lemma unat_packet: "PS < 2 ^ 32 \<Longrightarrow> unat (of_nat PS :: 32 word) = PS"
  by (simp add: unat_of_nat)

lemma word_div_packet:
  "PS < 2 ^ 32 \<Longrightarrow> (a :: 32 word) div of_nat PS = of_nat (unat a div PS)"
  by (simp add: word_arith_nat_div unat_packet)

lemma unat_add_packet:
  "PS < 2 ^ 32 \<Longrightarrow> unat (a :: 32 word) + PS < 2 ^ 32 \<Longrightarrow> unat (a + of_nat PS) = unat a + PS"
  using unat_add_lem [of a "of_nat PS :: 32 word"] by (simp add: unat_packet)

lemma unat_32: "unat (a :: 32 word) < 2 ^ 32"
  using unsigned_less [of a, where 'a = nat] by simp

lemma memcpy_length:
  "off + n \<le> length d \<Longrightarrow> n \<le> length src \<Longrightarrow> length (memcpy_at d off src n) = length d"
  by (simp add: memcpy_at_def)

lemma memcpy_take:
  "off + n \<le> length d \<Longrightarrow> n \<le> length src \<Longrightarrow>
   take (off + n) (memcpy_at d off src n) = take off d @ take n src"
  by (simp add: memcpy_at_def)

lemma memcpy_drop:
  "off + n \<le> length d \<Longrightarrow> n \<le> length src \<Longrightarrow>
   drop (off + n + x) (memcpy_at d off src n) = drop (off + n + x) d"
  by (simp add: memcpy_at_def add.commute)

lemma byte_mask: "(0xFF :: 32 word) = mask 8"
  by (simp add: mask_eq_exp_minus_1)

lemma unat_low_byte: "unat ((w :: 32 word) AND 0xFF) = unat w mod 256"
  by (simp add: byte_mask unat_mod take_bit_eq_mod flip: take_bit_eq_mask)

lemma ucast_unat: "(ucast (x :: 32 word) :: 8 word) = of_nat (unat x)"
  by simp

lemma low_byte: "(ucast ((w :: 32 word) AND 0xFF) :: 8 word) = of_nat (unat w mod 256)"
  by (simp only: ucast_unat unat_low_byte)

lemma unat_drop_8: "unat (drop_bit 8 (w :: 32 word)) = unat w div 256"
  by (simp add: drop_bit_eq_div unat_div)

lemma high_byte:
  "(ucast (drop_bit 8 (w :: 32 word) AND 0xFF) :: 8 word) = of_nat (unat w div 256 mod 256)"
  by (simp only: low_byte unat_drop_8)

lemma read_command_nat:
  "i < 2 ^ 32 \<Longrightarrow> read_command (of_nat i) =
     [0x20, of_nat (i mod 256), of_nat (i div 256 mod 256),
      of_nat (i mod 256), of_nat (i div 256 mod 256), 0]"
  unfolding read_command_def low_byte high_byte unat_drop_8 by (simp add: unat_of_nat)

subsection \<open>The read loop\<close>

lemma length_packet_commands [simp]: "length (packet_commands PS address n) = n"
  by (induction n arbitrary: address) simp_all

lemma read_loop_main:
  assumes ps: "0 < PS" "PS < 2 ^ 32"
  shows "unat sz = unat nbytes + m * PS \<Longrightarrow> off + m * PS \<le> length data \<Longrightarrow>
    \<exists>rc data' p' es ks.
        read_loop PS p address data off sz nbytes = Some (rc, data', p')
      \<and> trace p' = trace p @ es \<and> close_result p' = close_result p
      \<and> rc \<noteq> Aborted
      \<and> length ks \<le> m
      \<and> (rc = Returned DEVICE_STATUS_SUCCESS \<longrightarrow> length ks = m)
      \<and> (rc \<noteq> Returned DEVICE_STATUS_SUCCESS \<longrightarrow> ks \<noteq> []
           \<and> (\<exists>q answer. oceanic_veo250_transfer PS q
                  (last (packet_commands PS address (length ks))) (replicate (PS + 2) 0)
                 = (rc, answer, p')))
      \<and> (\<forall>k\<in>set ks. 1 \<le> k \<and> k \<le> MAXRETRIES + 1)
      \<and> writes es = concat (map (\<lambda>(k, c). replicate k c)
                        (zip ks (packet_commands PS address (length ks))))
      \<and> length (payloads PS es) =
           (if rc = Returned DEVICE_STATUS_SUCCESS then length ks else length ks - 1)
      \<and> (\<forall>f\<in>set (payloads PS es). length f = PS)
      \<and> length data' = length data
      \<and> data' = take off data @ concat (payloads PS es)
                  @ drop (off + length (payloads PS es) * PS) data"
proof (induction m arbitrary: p address data off nbytes)
  case 0
  then have "\<not> nbytes < sz" by (simp add: word_less_nat_alt)
  then have rl: "read_loop PS p address data off sz nbytes
                 = Some (Returned DEVICE_STATUS_SUCCESS, data, p)"
    by (subst read_loop.simps) simp
  show ?case
    by (rule exI [of _ "Returned DEVICE_STATUS_SUCCESS"], rule exI [of _ data],
        rule exI [of _ p], rule exI [of _ "[]"], rule exI [of _ "[]"])
       (simp add: rl)
next
  case (Suc m)
  let ?W = "of_nat PS :: 32 word"
  let ?cmd = "read_command (address div ?W)"
  have lt: "nbytes < sz" using Suc.prems(1) ps by (simp add: word_less_nat_alt)
  obtain rc1 answer1 p1 where
    t: "oceanic_veo250_transfer PS p ?cmd (replicate (PS + 2) 0) = (rc1, answer1, p1)"
    by (cases "oceanic_veo250_transfer PS p ?cmd (replicate (PS + 2) 0)") auto
  from transfer_trace [OF t] obtain es1 k1 where t1:
    "trace p1 = trace p @ es1" "close_result p1 = close_result p"
    "writes es1 = replicate k1 ?cmd" "1 \<le> k1" "k1 \<le> MAXRETRIES + 1"
    "length answer1 = PS + 2"
    "payloads PS es1 = (if rc1 = Returned DEVICE_STATUS_SUCCESS then [take PS answer1] else [])"
    "rc1 \<noteq> Aborted"
    by auto
  show ?case
  proof (cases "rc1 = Returned DEVICE_STATUS_SUCCESS")
    case False
    have rl: "read_loop PS p address data off sz nbytes = Some (rc1, data, p1)"
      using lt t False by (subst read_loop.simps) simp
    have last: "\<exists>q answer. oceanic_veo250_transfer PS q
                  (last (packet_commands PS address (length [k1]))) (replicate (PS + 2) 0)
                 = (rc1, answer, p1)"
      using t by auto
    show ?thesis
      by (insert t1(4,5) last, rule exI [of _ rc1], rule exI [of _ data], rule exI [of _ p1],
          rule exI [of _ es1], rule exI [of _ "[k1]"])
         (simp add: rl t1(1-3,6-8) False)
  next
    case True
    let ?d1 = "memcpy_at data off answer1 PS"
    have rl: "read_loop PS p address data off sz nbytes
              = read_loop PS p1 (address + ?W) ?d1 (off + PS) sz (nbytes + ?W)"
      using lt t True by (subst read_loop.simps) simp
    have fits: "off + PS \<le> length data" "PS \<le> length answer1"
      using Suc.prems(2) t1(6) by simp_all
    have len1: "length ?d1 = length data"
      using fits by (rule memcpy_length)
    have n1: "unat (nbytes + ?W) = unat nbytes + PS"
      using Suc.prems(1) unat_32 [of sz] ps by (intro unat_add_packet) simp_all
    have p1: "unat sz = unat (nbytes + ?W) + m * PS" using Suc.prems(1) n1 by simp
    have p2: "off + PS + m * PS \<le> length ?d1" using Suc.prems(2) len1 by simp
    from Suc.IH [OF p1 p2, of p1 "address + ?W"] obtain rc data' p' es2 ks2 where ih:
      "read_loop PS p1 (address + ?W) ?d1 (off + PS) sz (nbytes + ?W) = Some (rc, data', p')"
      "trace p' = trace p1 @ es2" "close_result p' = close_result p1"
      "rc \<noteq> Aborted"
      "length ks2 \<le> m"
      "rc = Returned DEVICE_STATUS_SUCCESS \<longrightarrow> length ks2 = m"
      "rc \<noteq> Returned DEVICE_STATUS_SUCCESS \<longrightarrow> ks2 \<noteq> []
           \<and> (\<exists>q answer. oceanic_veo250_transfer PS q
                  (last (packet_commands PS (address + ?W) (length ks2))) (replicate (PS + 2) 0)
                 = (rc, answer, p'))"
      "\<forall>k\<in>set ks2. 1 \<le> k \<and> k \<le> MAXRETRIES + 1"
      "writes es2 = concat (map (\<lambda>(k, c). replicate k c)
           (zip ks2 (packet_commands PS (address + ?W) (length ks2))))"
      "length (payloads PS es2) =
           (if rc = Returned DEVICE_STATUS_SUCCESS then length ks2 else length ks2 - 1)"
      "\<forall>f\<in>set (payloads PS es2). length f = PS"
      "length data' = length ?d1"
      "data' = take (off + PS) ?d1 @ concat (payloads PS es2)
                  @ drop (off + PS + length (payloads PS es2) * PS) ?d1"
      by blast
    let ?es = "es1 @ es2" and ?ks = "k1 # ks2"
    have c1: "read_loop PS p address data off sz nbytes = Some (rc, data', p')"
      using rl ih(1) by simp
    have c2: "trace p' = trace p @ ?es" using t1(1) ih(2) by simp
    have c3: "close_result p' = close_result p" using t1(2) ih(3) by simp
    have c5: "length ?ks \<le> Suc m" using ih(5) by simp
    have c6: "rc = Returned DEVICE_STATUS_SUCCESS \<longrightarrow> length ?ks = Suc m" using ih(6) by simp
    have c7: "rc \<noteq> Returned DEVICE_STATUS_SUCCESS \<longrightarrow> ?ks \<noteq> []
           \<and> (\<exists>q answer. oceanic_veo250_transfer PS q
                  (last (packet_commands PS address (length ?ks))) (replicate (PS + 2) 0)
                 = (rc, answer, p'))"
    proof
      assume "rc \<noteq> Returned DEVICE_STATUS_SUCCESS"
      with ih(7) have ne: "ks2 \<noteq> []" and
        ex: "\<exists>q answer. oceanic_veo250_transfer PS q
                  (last (packet_commands PS (address + ?W) (length ks2))) (replicate (PS + 2) 0)
                 = (rc, answer, p')"
        by simp_all
      from ne have "packet_commands PS (address + ?W) (length ks2) \<noteq> []"
        by (metis length_packet_commands length_0_conv)
      then have "last (packet_commands PS address (length ?ks))
                 = last (packet_commands PS (address + ?W) (length ks2))"
        by simp
      with ex show "?ks \<noteq> []
           \<and> (\<exists>q answer. oceanic_veo250_transfer PS q
                  (last (packet_commands PS address (length ?ks))) (replicate (PS + 2) 0)
                 = (rc, answer, p'))"
        by simp
    qed
    have c8: "\<forall>k\<in>set ?ks. 1 \<le> k \<and> k \<le> MAXRETRIES + 1" using ih(8) t1(4,5) by simp
    have c9: "writes ?es = concat (map (\<lambda>(k, c). replicate k c)
                        (zip ?ks (packet_commands PS address (length ?ks))))"
      using t1(3) ih(9) by (simp add: writes_append)
    have pl: "payloads PS ?es = take PS answer1 # payloads PS es2"
      using t1(7) True by (simp add: payloads_append)
    have c10: "length (payloads PS ?es) =
           (if rc = Returned DEVICE_STATUS_SUCCESS then length ?ks else length ?ks - 1)"
      using pl ih(10) ih(7) by (cases ks2) auto
    have c11: "\<forall>f\<in>set (payloads PS ?es). length f = PS"
      using pl ih(11) t1(6) by simp
    have c12: "length data' = length data" using ih(12) len1 by simp
    have "data' = (take off data @ take PS answer1) @ concat (payloads PS es2)
                  @ drop (off + PS + length (payloads PS es2) * PS) data"
      using ih(13) memcpy_take [OF fits] memcpy_drop [OF fits] by simp
    then have c13: "data' = take off data @ concat (payloads PS ?es)
                  @ drop (off + length (payloads PS ?es) * PS) data"
      using pl by (simp add: add.assoc)
    show ?thesis
      using c1 c2 c3 ih(4) c5 c6 c7 c8 c9 c10 c11 c12 c13 by blast
  qed
qed

text \<open>Without wrap-around the packets asked for are consecutive.\<close>

lemma packet_commands_nat:
  assumes ps: "0 < PS" "PS < 2 ^ 32"
  shows "unat address + n * PS \<le> 2 ^ 32 \<Longrightarrow>
    packet_commands PS address n
      = map (\<lambda>i. read_command (of_nat i)) [unat address div PS ..< unat address div PS + n]"
proof (induction n arbitrary: address)
  case 0
  show ?case by simp
next
  case (Suc n)
  let ?W = "of_nat PS :: 32 word"
  let ?b = "unat address div PS"
  have hd: "read_command (address div ?W) = read_command (of_nat ?b)"
    using ps by (simp add: word_div_packet)
  have tl: "packet_commands PS (address + ?W) n
            = map (\<lambda>i. read_command (of_nat i)) [Suc ?b ..< Suc ?b + n]"
  proof (cases "n = 0")
    case True
    then show ?thesis by simp
  next
    case False
    with ps have "0 < n * PS" by simp
    moreover have "unat address + PS + n * PS \<le> 2 ^ 32" using Suc.prems by simp
    ultimately have "unat address + PS < 2 ^ 32" by linarith
    with ps have a1: "unat (address + ?W) = unat address + PS"
      by (intro unat_add_packet) simp_all
    have "(unat address + PS) div PS = Suc ?b"
      using ps(1) div_add_self2 [of PS "unat address"] by simp
    with a1 have b1: "unat (address + ?W) div PS = Suc ?b" by simp
    have "unat (address + ?W) + n * PS \<le> 2 ^ 32" using a1 Suc.prems by simp
    from Suc.IH [OF this] b1 show ?thesis by simp
  qed
  have "?b < ?b + Suc n" by simp
  from upt_conv_Cons [OF this]
  have upt: "[?b ..< ?b + Suc n] = ?b # [Suc ?b ..< Suc ?b + n]" by simp
  show ?case unfolding upt using hd tl by simp
qed

subsection \<open>Handshake and close\<close>

lemma handshake_trace:
  assumes "oceanic_veo250_handshake p = (rc, p')"
  shows "\<exists>n bs. trace p' = trace p @ [SerialWrite [0x98, 0x00], SerialDrain, SerialRead 14 n bs]
     \<and> close_result p' = close_result p
     \<and> (n \<noteq> 14 \<longrightarrow> rc = EXITCODE n)"
proof -
  obtain rc1 p1 where snd: "oceanic_veo250_send p [0x98, 0x00] = (rc1, p1)"
    by (cases "oceanic_veo250_send p [0x98, 0x00]")
  note s = send_eq [OF snd]
  obtain n buf p2 where rd: "serial_read p1 (replicate 14 0) 14 = (n, buf, p2)"
    by (cases "serial_read p1 (replicate 14 0) 14") auto
  from read_eq [OF rd] obtain bs where
    r: "close_result p2 = close_result p1" "trace p2 = trace p1 @ [SerialRead 14 n bs]"
    by blast
  have res: "p' = p2" "n \<noteq> 14 \<longrightarrow> rc = EXITCODE n"
    using assms snd rd s by (auto simp: oceanic_veo250_handshake_def split: if_splits)
  have c1: "trace p' = trace p @ [SerialWrite [0x98, 0x00], SerialDrain, SerialRead 14 n bs]"
    using res(1) r(2) s by simp
  have c2: "close_result p' = close_result p" using res(1) r(1) s by simp
  show ?thesis using c1 c2 res(2) by blast
qed

lemma issued_append: "trace p' = trace p @ es \<Longrightarrow> issued p p' = es"
  by (simp add: issued_def)

text \<open>Init cannot fail, whatever the port does.\<close>

lemma init_status: "fst (oceanic_veo250_init p) = DEVICE_STATUS_SUCCESS"
proof (cases "oceanic_veo250_send p [0x55, 0x00]")
  case (Pair rc p1)
  from send_eq [OF Pair] show ?thesis
    by (simp add: oceanic_veo250_init_def Pair)
qed

lemma init_trace:
  "trace (snd (oceanic_veo250_init p)) = trace p @ [SerialWrite [0x55, 0x00], SerialDrain]"
proof (cases "oceanic_veo250_send p [0x55, 0x00]")
  case (Pair rc p1)
  from send_eq [OF Pair] show ?thesis
    by (simp add: oceanic_veo250_init_def Pair)
qed

subsection \<open>The transfer on a scripted port\<close>

lemma ACK_neq_NAK [simp]: "ACK \<noteq> NAK" "NAK \<noteq> ACK"
  by (simp_all add: ACK_def NAK_def)

lemma read_delivers:
  "incoming p = Delivers bs # rest \<Longrightarrow> length bs = len \<Longrightarrow> len \<le> length buf \<Longrightarrow>
   serial_read p buf len =
     (int len, bs @ drop len buf,
      p\<lparr>incoming := rest, trace := trace p @ [SerialRead len (int len) bs]\<rparr>)"
  by (simp add: serial_read_def)

lemma loop_step_script:
  assumes inc: "incoming p = Delivers [b] # rest"
  shows "\<exists>p2. incoming p2 = rest \<and> close_result p2 = close_result p
     \<and> trace p2 = trace p @ [SerialWrite command, SerialDrain, SerialRead 1 1 [b]]
     \<and> transfer_loop p command nretries NAK =
         (if b = NAK \<and> nretries < MAXRETRIES
          then transfer_loop p2 command (nretries + 1) NAK else (Inr b, p2))"
proof -
  obtain rc p1 where snd: "oceanic_veo250_send p command = (rc, p1)"
    by (cases "oceanic_veo250_send p command")
  note s = send_eq [OF snd]
  let ?p2 = "p1\<lparr>incoming := rest, trace := trace p1 @ [SerialRead 1 (int 1) [b]]\<rparr>"
  have rd: "serial_read p1 [NAK] 1 = (int 1, [b] @ drop 1 [NAK], ?p2)"
    using s inc by (intro read_delivers) simp_all
  have unf1: "transfer_loop p command nretries NAK =
         (if nretries \<ge> MAXRETRIES then (Inr b, ?p2)
          else transfer_loop ?p2 command (nretries + 1) b)"
    using snd rd s by (subst transfer_loop.simps) simp
  have unf2: "b \<noteq> NAK \<Longrightarrow> transfer_loop ?p2 command (nretries + 1) b = (Inr b, ?p2)"
    by (subst transfer_loop.simps) simp
  have unf: "transfer_loop p command nretries NAK =
         (if b = NAK \<and> nretries < MAXRETRIES
          then transfer_loop ?p2 command (nretries + 1) NAK else (Inr b, ?p2))"
    using unf1 unf2 by (cases "b = NAK") auto
  have "incoming ?p2 = rest" "close_result ?p2 = close_result p"
    "trace ?p2 = trace p @ [SerialWrite command, SerialDrain, SerialRead 1 1 [b]]"
    using s by simp_all
  with unf show ?thesis by blast
qed

lemma writes_naks:
  "writes (concat (replicate k [SerialWrite c, SerialDrain, SerialRead len n bs]))
     = replicate k c"
  by (induction k) simp_all

lemma loop_naks:
  "nretries + k \<le> MAXRETRIES \<Longrightarrow>
   incoming p = replicate k (Delivers [NAK]) @ Delivers [b] # rest \<Longrightarrow> b \<noteq> NAK \<Longrightarrow>
   \<exists>p'. transfer_loop p command nretries NAK = (Inr b, p')
     \<and> incoming p' = rest \<and> close_result p' = close_result p
     \<and> trace p' = trace p
          @ concat (replicate k [SerialWrite command, SerialDrain, SerialRead 1 1 [NAK]])
          @ [SerialWrite command, SerialDrain, SerialRead 1 1 [b]]"
proof (induction k arbitrary: p nretries)
  case 0
  then have inc: "incoming p = Delivers [b] # rest" by simp
  from loop_step_script [OF inc, of command nretries] 0(3) show ?case by auto
next
  case (Suc k)
  then have inc: "incoming p = Delivers [NAK] # (replicate k (Delivers [NAK]) @ Delivers [b] # rest)"
    by simp
  from loop_step_script [OF inc, of command nretries] Suc.prems(1) obtain p2 where s:
    "incoming p2 = replicate k (Delivers [NAK]) @ Delivers [b] # rest"
    "close_result p2 = close_result p"
    "trace p2 = trace p @ [SerialWrite command, SerialDrain, SerialRead 1 1 [NAK]]"
    "transfer_loop p command nretries NAK = transfer_loop p2 command (nretries + 1) NAK"
    by auto
  have "nretries + 1 + k \<le> MAXRETRIES" using Suc.prems(1) by simp
  from Suc.IH [OF this s(1) Suc.prems(3)] obtain p' where
    "transfer_loop p2 command (nretries + 1) NAK = (Inr b, p')"
    "incoming p' = rest" "close_result p' = close_result p2"
    "trace p' = trace p2
          @ concat (replicate k [SerialWrite command, SerialDrain, SerialRead 1 1 [NAK]])
          @ [SerialWrite command, SerialDrain, SerialRead 1 1 [b]]"
    by blast
  with s show ?case by simp
qed

lemma loop_exhausted:
  "nretries + j = MAXRETRIES \<Longrightarrow>
   incoming p = replicate (Suc j) (Delivers [NAK]) @ rest \<Longrightarrow>
   \<exists>p'. transfer_loop p command nretries NAK = (Inr NAK, p')
     \<and> incoming p' = rest \<and> close_result p' = close_result p
     \<and> trace p' = trace p
          @ concat (replicate (Suc j) [SerialWrite command, SerialDrain, SerialRead 1 1 [NAK]])"
proof (induction j arbitrary: p nretries)
  case 0
  then have inc: "incoming p = Delivers [NAK] # rest" by simp
  from loop_step_script [OF inc, of command nretries] 0(1) show ?case by auto
next
  case (Suc j)
  then have inc: "incoming p = Delivers [NAK] # (replicate (Suc j) (Delivers [NAK]) @ rest)"
    by simp
  from loop_step_script [OF inc, of command nretries] Suc.prems(1) obtain p2 where s:
    "incoming p2 = replicate (Suc j) (Delivers [NAK]) @ rest"
    "close_result p2 = close_result p"
    "trace p2 = trace p @ [SerialWrite command, SerialDrain, SerialRead 1 1 [NAK]]"
    "transfer_loop p command nretries NAK = transfer_loop p2 command (nretries + 1) NAK"
    by auto
  have "nretries + 1 + j = MAXRETRIES" using Suc.prems(1) by simp
  from Suc.IH [OF this s(1)] obtain p' where
    "transfer_loop p2 command (nretries + 1) NAK = (Inr NAK, p')"
    "incoming p' = rest" "close_result p' = close_result p2"
    "trace p' = trace p2
          @ concat (replicate (Suc j) [SerialWrite command, SerialDrain, SerialRead 1 1 [NAK]])"
    by blast
  with s show ?case by simp
qed

lemma transfer_rejected:
  "length answer = PACKET_SIZE + 2 \<Longrightarrow> transfer_loop p command 0 NAK = (Inr b, p') \<Longrightarrow>
   b \<noteq> ACK \<Longrightarrow>
   oceanic_veo250_transfer PACKET_SIZE p command answer
     = (Returned DEVICE_STATUS_PROTOCOL, answer, p')"
  by (simp add: oceanic_veo250_transfer_def)

lemma transfer_accepted:
  "length answer = PACKET_SIZE + 2 \<Longrightarrow> transfer_loop p command 0 NAK = (Inr ACK, p1) \<Longrightarrow>
   serial_read p1 answer (PACKET_SIZE + 2) = (n, answer', p2) \<Longrightarrow>
   oceanic_veo250_transfer PACKET_SIZE p command answer
     = (Returned (if n \<noteq> int (PACKET_SIZE + 2) then EXITCODE n
                  else if frame_ok PACKET_SIZE answer' then DEVICE_STATUS_SUCCESS
                  else DEVICE_STATUS_PROTOCOL), answer', p2)"
  by (simp add: oceanic_veo250_transfer_def frame_ok_def)

lemma transfer_exhausted:
  assumes len: "length answer = PACKET_SIZE + 2"
    and inc: "incoming p = replicate (MAXRETRIES + 1) (Delivers [NAK]) @ rest"
  shows "\<exists>p'. oceanic_veo250_transfer PACKET_SIZE p command answer
             = (Returned DEVICE_STATUS_PROTOCOL, answer, p')
     \<and> incoming p' = rest
     \<and> trace p' = trace p @ concat (replicate (MAXRETRIES + 1)
                        [SerialWrite command, SerialDrain, SerialRead 1 1 [NAK]])"
proof -
  have "0 + MAXRETRIES = MAXRETRIES" by simp
  from loop_exhausted [OF this, of p rest command] inc obtain p' where l:
    "transfer_loop p command 0 NAK = (Inr NAK, p')" "incoming p' = rest"
    "trace p' = trace p @ concat (replicate (Suc MAXRETRIES)
                        [SerialWrite command, SerialDrain, SerialRead 1 1 [NAK]])"
    by auto
  from transfer_rejected [OF len l(1)] l(2,3) show ?thesis by simp
qed

lemma transfer_nonack:
  assumes len: "length answer = PACKET_SIZE + 2"
    and k: "k \<le> MAXRETRIES" and b: "b \<noteq> NAK" "b \<noteq> ACK"
    and inc: "incoming p = replicate k (Delivers [NAK]) @ Delivers [b] # rest"
  shows "\<exists>p'. oceanic_veo250_transfer PACKET_SIZE p command answer
             = (Returned DEVICE_STATUS_PROTOCOL, answer, p')
     \<and> incoming p' = rest
     \<and> trace p' = trace p
          @ concat (replicate k [SerialWrite command, SerialDrain, SerialRead 1 1 [NAK]])
          @ [SerialWrite command, SerialDrain, SerialRead 1 1 [b]]"
proof -
  have "0 + k \<le> MAXRETRIES" using k by simp
  from loop_naks [OF this inc b(1), of command] obtain p' where l:
    "transfer_loop p command 0 NAK = (Inr b, p')" "incoming p' = rest"
    "trace p' = trace p
          @ concat (replicate k [SerialWrite command, SerialDrain, SerialRead 1 1 [NAK]])
          @ [SerialWrite command, SerialDrain, SerialRead 1 1 [b]]"
    by blast
  from transfer_rejected [OF len l(1) b(2)] l(2,3) show ?thesis by simp
qed

lemma transfer_acked:
  assumes len: "length answer = PACKET_SIZE + 2"
    and k: "k \<le> MAXRETRIES"
    and inc: "incoming p = replicate k (Delivers [NAK]) @ Delivers [ACK] # rest"
  shows "\<exists>p1 n answer' p2 bs.
       incoming p1 = rest
     \<and> serial_read p1 answer (PACKET_SIZE + 2) = (n, answer', p2)
     \<and> oceanic_veo250_transfer PACKET_SIZE p command answer
         = (Returned (if n \<noteq> int (PACKET_SIZE + 2) then EXITCODE n
                      else if frame_ok PACKET_SIZE answer' then DEVICE_STATUS_SUCCESS
                      else DEVICE_STATUS_PROTOCOL), answer', p2)
     \<and> trace p2 = trace p
          @ concat (replicate k [SerialWrite command, SerialDrain, SerialRead 1 1 [NAK]])
          @ [SerialWrite command, SerialDrain, SerialRead 1 1 [ACK],
             SerialRead (PACKET_SIZE + 2) n bs]"
proof -
  have "0 + k \<le> MAXRETRIES" using k by simp
  from loop_naks [OF this inc, of command] obtain p1 where l:
    "transfer_loop p command 0 NAK = (Inr ACK, p1)" "incoming p1 = rest"
    "trace p1 = trace p
          @ concat (replicate k [SerialWrite command, SerialDrain, SerialRead 1 1 [NAK]])
          @ [SerialWrite command, SerialDrain, SerialRead 1 1 [ACK]]"
    by auto
  obtain n answer' p2 where rd: "serial_read p1 answer (PACKET_SIZE + 2) = (n, answer', p2)"
    by (cases "serial_read p1 answer (PACKET_SIZE + 2)") auto
  from read_eq [OF rd] obtain bs where
    r: "trace p2 = trace p1 @ [SerialRead (PACKET_SIZE + 2) n bs]"
    by blast
  have tr: "trace p2 = trace p
          @ concat (replicate k [SerialWrite command, SerialDrain, SerialRead 1 1 [NAK]])
          @ [SerialWrite command, SerialDrain, SerialRead 1 1 [ACK],
             SerialRead (PACKET_SIZE + 2) n bs]"
    using r l(3) by simp
  from transfer_accepted [OF len l(1) rd] l(2) rd tr show ?thesis by blast
qed

lemma unat_foldl_add:
  "unat (foldl (+) (s :: byte) xs) = (unat s + sum_list (map unat xs)) mod 256"
proof (induction xs arbitrary: s)
  case Nil
  have "unat s < 256" using unsigned_less [of s, where 'a = nat] by simp
  then show ?case by simp
next
  case (Cons x xs)
  have "unat (foldl (+) (s + x) xs) = (unat (s + x) + sum_list (map unat xs)) mod 256"
    by (rule Cons.IH)
  also have "unat (s + x) = (unat s + unat x) mod 256"
    by (simp add: unat_word_ariths)
  also have "((unat s + unat x) mod 256 + sum_list (map unat xs)) mod 256
             = (unat s + (unat x + sum_list (map unat xs))) mod 256"
    by (simp add: mod_add_left_eq add.assoc)
  finally show ?case by simp
qed

lemma checksum_sum:
  "unat (checksum_add_uint8 data n s) = (unat s + sum_list (map unat (take n data))) mod 256"
  by (simp add: checksum_add_uint8_def unat_foldl_add)

lemma frame_ok_sum:
  "frame_ok PACKET_SIZE frame \<longleftrightarrow>
     unat (frame ! PACKET_SIZE) = sum_list (map unat (take PACKET_SIZE frame)) mod 256
     \<and> frame ! (PACKET_SIZE + 1) = NAK"
  using checksum_sum [of frame PACKET_SIZE 0]
  by (auto simp: frame_ok_def word_unat_eq_iff)

subsection \<open>The read operation\<close>

lemma word_mod_packet:
  "PS < 2 ^ 32 \<Longrightarrow> unat (a :: 32 word) mod PS = 0 \<Longrightarrow> a mod of_nat PS = 0"
  by (simp add: word_unat_eq_iff unat_mod unat_packet)

lemma device_read_main:
  assumes ps: "0 < PS" "PS < 2 ^ 32"
    and h: "abstract = Some device" "backend device = oceanic_veo250_device_backend"
    and al: "unat address mod PS = 0" "unat sz mod PS = 0"
    and buf: "unat sz \<le> length data"
  shows "\<exists>rc data' p' ks.
        oceanic_veo250_device_read PS abstract address data sz
          = Some (rc, data', Some (device\<lparr>port := p'\<rparr>))
      \<and> rc \<noteq> Aborted
      \<and> length ks \<le> unat sz div PS
      \<and> (rc = Returned DEVICE_STATUS_SUCCESS \<longrightarrow> length ks = unat sz div PS)
      \<and> (rc \<noteq> Returned DEVICE_STATUS_SUCCESS \<longrightarrow> ks \<noteq> []
           \<and> (\<exists>q answer. oceanic_veo250_transfer PS q
                  (last (packet_commands PS address (length ks))) (replicate (PS + 2) 0)
                 = (rc, answer, p')))
      \<and> (\<forall>k\<in>set ks. 1 \<le> k \<and> k \<le> MAXRETRIES + 1)
      \<and> writes (issued (port device) p') = concat (map (\<lambda>(k, c). replicate k c)
                        (zip ks (packet_commands PS address (length ks))))
      \<and> length (payloads PS (issued (port device) p')) =
           (if rc = Returned DEVICE_STATUS_SUCCESS then length ks else length ks - 1)
      \<and> (\<forall>f\<in>set (payloads PS (issued (port device) p')). length f = PS)
      \<and> length data' = length data
      \<and> data' = concat (payloads PS (issued (port device) p'))
                  @ drop (length (payloads PS (issued (port device) p')) * PS) data"
proof -
  let ?m = "unat sz div PS"
  have m: "unat sz = unat (0 :: 32 word) + ?m * PS" using al(2) by auto
  have b: "0 + ?m * PS \<le> length data" using m buf by simp
  from read_loop_main [OF ps m b, of "port device" address] obtain rc data' p' es ks where r:
      "read_loop PS (port device) address data 0 sz 0 = Some (rc, data', p')"
      "trace p' = trace (port device) @ es"
      "rc \<noteq> Aborted"
      "length ks \<le> ?m"
      "rc = Returned DEVICE_STATUS_SUCCESS \<longrightarrow> length ks = ?m"
      "rc \<noteq> Returned DEVICE_STATUS_SUCCESS \<longrightarrow> ks \<noteq> []
           \<and> (\<exists>q answer. oceanic_veo250_transfer PS q
                  (last (packet_commands PS address (length ks))) (replicate (PS + 2) 0)
                 = (rc, answer, p'))"
      "\<forall>k\<in>set ks. 1 \<le> k \<and> k \<le> MAXRETRIES + 1"
      "writes es = concat (map (\<lambda>(k, c). replicate k c)
                        (zip ks (packet_commands PS address (length ks))))"
      "length (payloads PS es) =
           (if rc = Returned DEVICE_STATUS_SUCCESS then length ks else length ks - 1)"
      "\<forall>f\<in>set (payloads PS es). length f = PS"
      "length data' = length data"
      "data' = take 0 data @ concat (payloads PS es)
                  @ drop (0 + length (payloads PS es) * PS) data"
    by blast
  note i = issued_append [OF r(2)]
  have c1: "oceanic_veo250_device_read PS abstract address data sz
          = Some (rc, data', Some (device\<lparr>port := p'\<rparr>))"
    using h r(1) word_mod_packet [OF ps(2) al(1)] word_mod_packet [OF ps(2) al(2)]
    by (simp add: oceanic_veo250_device_read_def device_is_oceanic_veo250_def)
  have c11: "data' = concat (payloads PS (issued (port device) p'))
                  @ drop (length (payloads PS (issued (port device) p')) * PS) data"
    using r(12) i by simp
  show ?thesis
    using c1 r(3-7) r(8-11) [folded i] c11 by blast
qed

lemma length_concat_const:
  "\<forall>f\<in>set F. length f = n \<Longrightarrow> length (concat F) = length F * n"
  by (induction F) simp_all

lemma device_read_buffer:
  assumes "0 < PS" and "PS < 2 ^ 32"
    and "abstract = Some device" and "backend device = oceanic_veo250_device_backend"
    and "unat address mod PS = 0" and "unat sz mod PS = 0"
    and "unat sz \<le> length data"
  shows "\<exists>rc data' p'.
      oceanic_veo250_device_read PS abstract address data sz
        = Some (rc, data', Some (device\<lparr>port := p'\<rparr>))
    \<and> (rc = Returned DEVICE_STATUS_SUCCESS \<longrightarrow>
          take (unat sz) data' = concat (payloads PS (issued (port device) p'))
        \<and> length (concat (payloads PS (issued (port device) p'))) = unat sz)"
proof -
  from device_read_main [OF assms] obtain rc data' p' and ks :: "nat list" where r:
      "oceanic_veo250_device_read PS abstract address data sz
          = Some (rc, data', Some (device\<lparr>port := p'\<rparr>))"
      "rc = Returned DEVICE_STATUS_SUCCESS \<longrightarrow> length ks = unat sz div PS"
      "length (payloads PS (issued (port device) p')) =
           (if rc = Returned DEVICE_STATUS_SUCCESS then length ks else length ks - 1)"
      "\<forall>f\<in>set (payloads PS (issued (port device) p')). length f = PS"
      "data' = concat (payloads PS (issued (port device) p'))
                  @ drop (length (payloads PS (issued (port device) p')) * PS) data"
    by blast
  let ?F = "payloads PS (issued (port device) p')"
  have msz: "unat sz div PS * PS = unat sz" using assms(6) by auto
  have "take (unat sz) data' = concat ?F \<and> length (concat ?F) = unat sz"
    if ok: "rc = Returned DEVICE_STATUS_SUCCESS"
  proof -
    from ok r(2,3) have lf: "length ?F = unat sz div PS" by simp
    have lc: "length (concat ?F) = unat sz"
      using length_concat_const [OF r(4)] lf msz by simp
    have d: "data' = concat ?F @ drop (unat sz) data" using r(5) lf msz by simp
    have "take (unat sz) data' = concat ?F"
      by (subst d) (simp add: lc)
    with lc show ?thesis by simp
  qed
  with r(1) show ?thesis by blast
qed

subsection \<open>The read on scripted answers\<close>

lemma serial_read_indep:
  assumes "incoming p = incoming q"
  shows "\<exists>e. fst (serial_read p buf len) = fst (serial_read q buf len)
     \<and> fst (snd (serial_read p buf len)) = fst (snd (serial_read q buf len))
     \<and> incoming (snd (snd (serial_read p buf len))) = incoming (snd (snd (serial_read q buf len)))
     \<and> trace (snd (snd (serial_read p buf len))) = trace p @ [e]
     \<and> trace (snd (snd (serial_read q buf len))) = trace q @ [e]"
  using assms by (auto simp: serial_read_def split: list.splits reply.splits)

lemma loop_indep:
  "incoming p = incoming q \<Longrightarrow>
   \<exists>es. fst (transfer_loop p command nretries response)
          = fst (transfer_loop q command nretries response)
     \<and> incoming (snd (transfer_loop p command nretries response))
          = incoming (snd (transfer_loop q command nretries response))
     \<and> trace (snd (transfer_loop p command nretries response)) = trace p @ es
     \<and> trace (snd (transfer_loop q command nretries response)) = trace q @ es"
proof (induction p command nretries response arbitrary: q rule: transfer_loop.induct)
  case (1 p command nretries response)
  show ?case
  proof (cases "response = NAK")
    case False
    then have "transfer_loop p command nretries response = (Inr response, p)"
      "transfer_loop q command nretries response = (Inr response, q)"
      by (simp_all add: transfer_loop.simps)
    with "1.prems" show ?thesis by simp
  next
    case True
    obtain rc p1 where sp: "oceanic_veo250_send p command = (rc, p1)"
      by (cases "oceanic_veo250_send p command")
    obtain rcq q1 where sq: "oceanic_veo250_send q command = (rcq, q1)"
      by (cases "oceanic_veo250_send q command")
    note s = send_eq [OF sp] and t = send_eq [OF sq]
    have inc1: "incoming p1 = incoming q1" using s t "1.prems" by simp
    obtain n buf p2 where rp: "serial_read p1 [response] 1 = (n, buf, p2)"
      by (cases "serial_read p1 [response] 1") auto
    obtain m bufq q2 where rq: "serial_read q1 [response] 1 = (m, bufq, q2)"
      by (cases "serial_read q1 [response] 1") auto
    from serial_read_indep [OF inc1, of "[response]" 1] rp rq obtain e where r:
      "m = n" "bufq = buf" "incoming p2 = incoming q2"
      "trace p2 = trace p1 @ [e]" "trace q2 = trace q1 @ [e]"
      by auto
    let ?e = "[SerialWrite command, SerialDrain, e]"
    have tp: "trace p2 = trace p @ ?e" and tq: "trace q2 = trace q @ ?e"
      using s t r by simp_all
    let ?r' = "case buf of [] \<Rightarrow> response | r # x \<Rightarrow> r"
    have up: "transfer_loop p command nretries response =
        (if n \<noteq> 1 then (Inl (EXITCODE n), p2)
         else if nretries \<ge> MAXRETRIES then (Inr ?r', p2)
         else transfer_loop p2 command (nretries + 1) ?r')"
      using True sp rp s by (subst transfer_loop.simps) simp
    have uq: "transfer_loop q command nretries response =
        (if n \<noteq> 1 then (Inl (EXITCODE n), q2)
         else if nretries \<ge> MAXRETRIES then (Inr ?r', q2)
         else transfer_loop q2 command (nretries + 1) ?r')"
      using True sq rq t r(1,2) by (subst transfer_loop.simps) simp
    show ?thesis
    proof (cases "n \<noteq> 1 \<or> nretries \<ge> MAXRETRIES")
      case True
      then have "fst (transfer_loop p command nretries response)
                 = fst (transfer_loop q command nretries response)"
        "snd (transfer_loop p command nretries response) = p2"
        "snd (transfer_loop q command nretries response) = q2"
        using up uq by auto
      with r(3) tp tq show ?thesis by simp
    next
      case False
      then have n1: "n = 1" and lt: "\<not> MAXRETRIES \<le> nretries" by auto
      have rec: "transfer_loop p command nretries response
                 = transfer_loop p2 command (nretries + 1) ?r'"
        "transfer_loop q command nretries response
                 = transfer_loop q2 command (nretries + 1) ?r'"
        using up uq n1 lt by simp_all
      have "\<exists>es. fst (transfer_loop p2 command (nretries + 1) ?r')
          = fst (transfer_loop q2 command (nretries + 1) ?r')
         \<and> incoming (snd (transfer_loop p2 command (nretries + 1) ?r'))
          = incoming (snd (transfer_loop q2 command (nretries + 1) ?r'))
         \<and> trace (snd (transfer_loop p2 command (nretries + 1) ?r')) = trace p2 @ es
         \<and> trace (snd (transfer_loop q2 command (nretries + 1) ?r')) = trace q2 @ es"
        using "1.IH" [OF \<open>response = NAK\<close> sp [symmetric] _ rp [symmetric] refl _ lt r(3)] s n1
        by simp
      then obtain es where ih:
        "fst (transfer_loop p2 command (nretries + 1) ?r')
          = fst (transfer_loop q2 command (nretries + 1) ?r')"
        "incoming (snd (transfer_loop p2 command (nretries + 1) ?r'))
          = incoming (snd (transfer_loop q2 command (nretries + 1) ?r'))"
        "trace (snd (transfer_loop p2 command (nretries + 1) ?r')) = trace p2 @ es"
        "trace (snd (transfer_loop q2 command (nretries + 1) ?r')) = trace q2 @ es"
        by blast
      have "fst (transfer_loop p command nretries response)
              = fst (transfer_loop q command nretries response)
         \<and> incoming (snd (transfer_loop p command nretries response))
              = incoming (snd (transfer_loop q command nretries response))
         \<and> trace (snd (transfer_loop p command nretries response)) = trace p @ (?e @ es)
         \<and> trace (snd (transfer_loop q command nretries response)) = trace q @ (?e @ es)"
        unfolding rec using ih tp tq by simp
      then show ?thesis by blast
    qed
  qed
qed

lemma transfer_indep:
  assumes len: "length answer = PACKET_SIZE + 2" and inc: "incoming p = incoming q"
  shows "\<exists>es. fst (oceanic_veo250_transfer PACKET_SIZE p command answer)
          = fst (oceanic_veo250_transfer PACKET_SIZE q command answer)
     \<and> incoming (snd (snd (oceanic_veo250_transfer PACKET_SIZE p command answer)))
          = incoming (snd (snd (oceanic_veo250_transfer PACKET_SIZE q command answer)))
     \<and> trace (snd (snd (oceanic_veo250_transfer PACKET_SIZE p command answer))) = trace p @ es
     \<and> trace (snd (snd (oceanic_veo250_transfer PACKET_SIZE q command answer))) = trace q @ es"
proof -
  obtain res p1 where lp: "transfer_loop p command 0 NAK = (res, p1)"
    by (cases "transfer_loop p command 0 NAK")
  obtain resq q1 where lq: "transfer_loop q command 0 NAK = (resq, q1)"
    by (cases "transfer_loop q command 0 NAK")
  from loop_indep [OF inc, of command 0 NAK] lp lq obtain es where l:
    "resq = res" "incoming p1 = incoming q1" "trace p1 = trace p @ es" "trace q1 = trace q @ es"
    by auto
  show ?thesis
  proof (cases "res = Inr ACK")
    case False
    then have "fst (oceanic_veo250_transfer PACKET_SIZE p command answer)
          = fst (oceanic_veo250_transfer PACKET_SIZE q command answer)"
      "snd (snd (oceanic_veo250_transfer PACKET_SIZE p command answer)) = p1"
      "snd (snd (oceanic_veo250_transfer PACKET_SIZE q command answer)) = q1"
      using len lp lq l(1)
      by (auto simp: oceanic_veo250_transfer_def split: sum.splits)
    with l(2-4) show ?thesis by simp
  next
    case True
    obtain n buf p2 where rp: "serial_read p1 answer (PACKET_SIZE + 2) = (n, buf, p2)"
      by (cases "serial_read p1 answer (PACKET_SIZE + 2)") auto
    obtain m bufq q2 where rq: "serial_read q1 answer (PACKET_SIZE + 2) = (m, bufq, q2)"
      by (cases "serial_read q1 answer (PACKET_SIZE + 2)") auto
    from serial_read_indep [OF l(2), of answer "PACKET_SIZE + 2"] rp rq obtain e where r:
      "m = n" "bufq = buf" "incoming p2 = incoming q2"
      "trace p2 = trace p1 @ [e]" "trace q2 = trace q1 @ [e]"
      by auto
    from transfer_accepted [OF len _ rp, of p command] lp True
    have tp: "oceanic_veo250_transfer PACKET_SIZE p command answer
     = (Returned (if n \<noteq> int (PACKET_SIZE + 2) then EXITCODE n
                  else if frame_ok PACKET_SIZE buf then DEVICE_STATUS_SUCCESS
                  else DEVICE_STATUS_PROTOCOL), buf, p2)"
      by simp
    from transfer_accepted [OF len _ rq, of q command] lq True l(1) r(1,2)
    have tq: "oceanic_veo250_transfer PACKET_SIZE q command answer
     = (Returned (if n \<noteq> int (PACKET_SIZE + 2) then EXITCODE n
                  else if frame_ok PACKET_SIZE buf then DEVICE_STATUS_SUCCESS
                  else DEVICE_STATUS_PROTOCOL), buf, q2)"
      by simp
    have "fst (oceanic_veo250_transfer PACKET_SIZE p command answer)
          = fst (oceanic_veo250_transfer PACKET_SIZE q command answer)
     \<and> incoming (snd (snd (oceanic_veo250_transfer PACKET_SIZE p command answer)))
          = incoming (snd (snd (oceanic_veo250_transfer PACKET_SIZE q command answer)))
     \<and> trace (snd (snd (oceanic_veo250_transfer PACKET_SIZE p command answer)))
          = trace p @ (es @ [e])
     \<and> trace (snd (snd (oceanic_veo250_transfer PACKET_SIZE q command answer)))
          = trace q @ (es @ [e])"
      unfolding tp tq using r(3-5) l(3,4) by simp
    then show ?thesis by blast
  qed
qed

text \<open>A transfer on a port compared with the same transfer on \<open>script_port\<close>.\<close>

lemma transfer_on_script:
  assumes len: "length answer = PACKET_SIZE + 2" and inc: "incoming p = rest"
  shows "fst (oceanic_veo250_transfer PACKET_SIZE p command answer)
          = fst (oceanic_veo250_transfer PACKET_SIZE (script_port rest) command answer)
     \<and> incoming (snd (snd (oceanic_veo250_transfer PACKET_SIZE p command answer)))
          = incoming (snd (snd (oceanic_veo250_transfer PACKET_SIZE (script_port rest)
                                  command answer)))
     \<and> trace (snd (snd (oceanic_veo250_transfer PACKET_SIZE p command answer)))
          = trace p @ trace (snd (snd (oceanic_veo250_transfer PACKET_SIZE (script_port rest)
                                         command answer)))"
proof -
  have "incoming p = incoming (script_port rest)" using inc by (simp add: script_port_def)
  from transfer_indep [OF len this, of command] show ?thesis
    by (auto simp: script_port_def)
qed

lemma transfer_success_script:
  assumes len: "length answer = PACKET_SIZE + 2" and fl: "length frame = PACKET_SIZE + 2"
    and k: "k \<le> MAXRETRIES" and ok: "frame_ok PACKET_SIZE frame"
    and inc: "incoming p = replicate k (Delivers [NAK]) @ Delivers [ACK] # Delivers frame # rest"
  shows "\<exists>p' es. oceanic_veo250_transfer PACKET_SIZE p command answer
               = (Returned DEVICE_STATUS_SUCCESS, frame, p')
     \<and> incoming p' = rest \<and> trace p' = trace p @ es
     \<and> writes es = replicate (Suc k) command"
proof -
  from transfer_acked [OF len k inc, of command] obtain p1 n answer' p2 bs where a:
    "incoming p1 = Delivers frame # rest"
    "serial_read p1 answer (PACKET_SIZE + 2) = (n, answer', p2)"
    "oceanic_veo250_transfer PACKET_SIZE p command answer
         = (Returned (if n \<noteq> int (PACKET_SIZE + 2) then EXITCODE n
                      else if frame_ok PACKET_SIZE answer' then DEVICE_STATUS_SUCCESS
                      else DEVICE_STATUS_PROTOCOL), answer', p2)"
    "trace p2 = trace p
          @ (concat (replicate k [SerialWrite command, SerialDrain, SerialRead 1 1 [NAK]])
          @ [SerialWrite command, SerialDrain, SerialRead 1 1 [ACK],
             SerialRead (PACKET_SIZE + 2) n bs])"
    by auto
  have "serial_read p1 answer (PACKET_SIZE + 2) =
     (int (PACKET_SIZE + 2), frame @ drop (PACKET_SIZE + 2) answer,
      p1\<lparr>incoming := rest,
         trace := trace p1 @ [SerialRead (PACKET_SIZE + 2) (int (PACKET_SIZE + 2)) frame]\<rparr>)"
    using a(1) len fl by (intro read_delivers) simp_all
  with a(2) len have r: "n = int (PACKET_SIZE + 2)" "answer' = frame" "incoming p2 = rest"
    by auto
  have t: "oceanic_veo250_transfer PACKET_SIZE p command answer
               = (Returned DEVICE_STATUS_SUCCESS, frame, p2)"
    using a(3) r ok by simp
  have w: "writes (concat (replicate k [SerialWrite command, SerialDrain, SerialRead 1 1 [NAK]])
          @ [SerialWrite command, SerialDrain, SerialRead 1 1 [ACK],
             SerialRead (PACKET_SIZE + 2) n bs]) = replicate (Suc k) command"
    by (simp add: writes_append writes_naks replicate_append_same)
  from t r(3) a(4) w show ?thesis by blast
qed

lemma read_loop_prefix:
  assumes ps: "0 < PS" "PS < 2 ^ 32"
  shows "\<forall>(k, f)\<in>set kfs. k \<le> MAXRETRIES \<and> length f = PS + 2 \<and> frame_ok PS f \<Longrightarrow>
    incoming p = answers_script kfs @ rest \<Longrightarrow>
    unat nbytes + length kfs * PS \<le> unat sz \<Longrightarrow> off + length kfs * PS \<le> length data \<Longrightarrow>
    \<exists>p' es. incoming p' = rest \<and> trace p' = trace p @ es
      \<and> writes es = concat (map (\<lambda>((k, f), c). replicate (Suc k) c)
                        (zip kfs (packet_commands PS address (length kfs))))
      \<and> read_loop PS p address data off sz nbytes
          = read_loop PS p' (address + of_nat (length kfs * PS))
              (take off data @ concat (map (\<lambda>(k, f). take PS f) kfs)
                 @ drop (off + length kfs * PS) data)
              (off + length kfs * PS) sz (nbytes + of_nat (length kfs * PS))"
proof (induction kfs arbitrary: p address data off nbytes)
  case Nil
  have "incoming p = rest \<and> trace p = trace p @ []
      \<and> writes [] = concat (map (\<lambda>((k, f), c). replicate (Suc k) c)
                        (zip [] (packet_commands PS address (length ([] :: (nat \<times> byte list) list)))))
      \<and> read_loop PS p address data off sz nbytes
          = read_loop PS p (address + of_nat (length ([] :: (nat \<times> byte list) list) * PS))
              (take off data @ concat (map (\<lambda>(k, f). take PS f) [])
                 @ drop (off + length ([] :: (nat \<times> byte list) list) * PS) data)
              (off + length ([] :: (nat \<times> byte list) list) * PS) sz
              (nbytes + of_nat (length ([] :: (nat \<times> byte list) list) * PS))"
    using Nil.prems(2) by simp
  then show ?case by blast
next
  case (Cons kf kfs)
  obtain k f where kf: "kf = (k, f)" by (cases kf)
  let ?W = "of_nat PS :: 32 word"
  let ?cmd = "read_command (address div ?W)"
  let ?j = "length kfs"
  from Cons.prems(1) kf have hd: "k \<le> MAXRETRIES" "length f = PS + 2" "frame_ok PS f"
    and tl: "\<forall>(k, f)\<in>set kfs. k \<le> MAXRETRIES \<and> length f = PS + 2 \<and> frame_ok PS f"
    by simp_all
  have inc: "incoming p = replicate k (Delivers [NAK]) @ Delivers [ACK] # Delivers f
                # (answers_script kfs @ rest)"
    using Cons.prems(2) kf by simp
  have "length (replicate (PS + 2) (0 :: byte)) = PS + 2" by simp
  from transfer_success_script [OF this hd(2,1,3) inc, of ?cmd] obtain p1 es1 where t:
    "oceanic_veo250_transfer PS p ?cmd (replicate (PS + 2) 0)
       = (Returned DEVICE_STATUS_SUCCESS, f, p1)"
    "incoming p1 = answers_script kfs @ rest" "trace p1 = trace p @ es1"
    "writes es1 = replicate (Suc k) ?cmd"
    by blast
  have le: "unat nbytes + PS + ?j * PS \<le> unat sz" using Cons.prems(3) by simp
  then have "unat nbytes < unat sz" using ps(1) by simp
  then have lt: "nbytes < sz" by (simp add: word_less_nat_alt)
  let ?d1 = "memcpy_at data off f PS"
  have rl: "read_loop PS p address data off sz nbytes
              = read_loop PS p1 (address + ?W) ?d1 (off + PS) sz (nbytes + ?W)"
    using lt t(1) by (subst read_loop.simps) simp
  have fits: "off + PS \<le> length data" "PS \<le> length f"
    using Cons.prems(4) hd(2) by simp_all
  have len1: "length ?d1 = length data" using fits by (rule memcpy_length)
  have "unat nbytes + PS < 2 ^ 32" using le unat_32 [of sz] ps(1) by simp
  with ps have n1: "unat (nbytes + ?W) = unat nbytes + PS"
    by (intro unat_add_packet) simp_all
  have q3: "unat (nbytes + ?W) + ?j * PS \<le> unat sz" using le n1 by simp
  have q4: "off + PS + ?j * PS \<le> length ?d1" using Cons.prems(4) len1 by simp
  from Cons.IH [OF tl t(2) q3 q4, of "address + ?W"] obtain p' es2 where ih:
    "incoming p' = rest" "trace p' = trace p1 @ es2"
    "writes es2 = concat (map (\<lambda>((k, f), c). replicate (Suc k) c)
                        (zip kfs (packet_commands PS (address + ?W) ?j)))"
    "read_loop PS p1 (address + ?W) ?d1 (off + PS) sz (nbytes + ?W)
          = read_loop PS p' (address + ?W + of_nat (?j * PS))
              (take (off + PS) ?d1 @ concat (map (\<lambda>(k, f). take PS f) kfs)
                 @ drop (off + PS + ?j * PS) ?d1)
              (off + PS + ?j * PS) sz (nbytes + ?W + of_nat (?j * PS))"
    by blast
  have c2: "trace p' = trace p @ (es1 @ es2)" using t(3) ih(2) by simp
  have c3: "writes (es1 @ es2) = concat (map (\<lambda>((k, f), c). replicate (Suc k) c)
                        (zip (kf # kfs) (packet_commands PS address (length (kf # kfs)))))"
    using t(4) ih(3) kf by (simp add: writes_append)
  have a: "address + ?W + of_nat (?j * PS) = address + of_nat (length (kf # kfs) * PS)"
    and n: "nbytes + ?W + of_nat (?j * PS) = nbytes + of_nat (length (kf # kfs) * PS)"
    by simp_all
  have o: "off + PS + ?j * PS = off + length (kf # kfs) * PS" by simp
  have d: "take (off + PS) ?d1 @ concat (map (\<lambda>(k, f). take PS f) kfs)
                 @ drop (off + length (kf # kfs) * PS) ?d1
           = take off data @ concat (map (\<lambda>(k, f). take PS f) (kf # kfs))
                 @ drop (off + length (kf # kfs) * PS) data"
    using memcpy_take [OF fits] memcpy_drop [OF fits, of "?j * PS"] kf
    by (simp add: add.assoc)
  from rl ih(4) have e: "read_loop PS p address data off sz nbytes
          = read_loop PS p' (address + ?W + of_nat (?j * PS))
              (take (off + PS) ?d1 @ concat (map (\<lambda>(k, f). take PS f) kfs)
                 @ drop (off + PS + ?j * PS) ?d1)
              (off + PS + ?j * PS) sz (nbytes + ?W + of_nat (?j * PS))"
    by (rule trans)
  have c4: "read_loop PS p address data off sz nbytes
          = read_loop PS p' (address + of_nat (length (kf # kfs) * PS))
              (take off data @ concat (map (\<lambda>(k, f). take PS f) (kf # kfs))
                 @ drop (off + length (kf # kfs) * PS) data)
              (off + length (kf # kfs) * PS) sz (nbytes + of_nat (length (kf # kfs) * PS))"
    using e by (simp only: a n o d)
  from ih(1) c2 c3 c4 show ?case by blast
qed

lemma device_read_answers:
  assumes ps: "0 < PS" "PS < 2 ^ 32"
    and h: "abstract = Some device" "backend device = oceanic_veo250_device_backend"
    and al: "unat address mod PS = 0" "unat sz mod PS = 0"
    and buf: "unat sz \<le> length data"
    and n: "length kfs = unat sz div PS"
    and ok: "\<forall>(k, f)\<in>set kfs. k \<le> MAXRETRIES \<and> length f = PS + 2 \<and> frame_ok PS f"
    and inc: "incoming (port device) = answers_script kfs @ rest"
  shows "\<exists>p'. oceanic_veo250_device_read PS abstract address data sz
           = Some (Returned DEVICE_STATUS_SUCCESS,
                   concat (map (\<lambda>(k, f). take PS f) kfs) @ drop (unat sz) data,
                   Some (device\<lparr>port := p'\<rparr>))
      \<and> incoming p' = rest
      \<and> writes (issued (port device) p')
          = concat (map (\<lambda>((k, f), c). replicate (Suc k) c)
                      (zip kfs (packet_commands PS address (length kfs))))"
proof -
  have msz: "length kfs * PS = unat sz" using al(2) n by auto
  have b3: "unat (0 :: 32 word) + length kfs * PS \<le> unat sz" using msz by simp
  have b4: "0 + length kfs * PS \<le> length data" using msz buf by simp
  from read_loop_prefix [OF ps ok inc b3 b4, of address] obtain p' es where r:
    "incoming p' = rest" "trace p' = trace (port device) @ es"
    "writes es = concat (map (\<lambda>((k, f), c). replicate (Suc k) c)
                        (zip kfs (packet_commands PS address (length kfs))))"
    "read_loop PS (port device) address data 0 sz 0
          = read_loop PS p' (address + of_nat (length kfs * PS))
              (take 0 data @ concat (map (\<lambda>(k, f). take PS f) kfs)
                 @ drop (0 + length kfs * PS) data)
              (0 + length kfs * PS) sz (0 + of_nat (length kfs * PS))"
    by blast
  have "(of_nat (length kfs * PS) :: 32 word) = sz" unfolding msz by simp
  then have e: "read_loop PS (port device) address data 0 sz 0
          = read_loop PS p' (address + of_nat (length kfs * PS))
              (concat (map (\<lambda>(k, f). take PS f) kfs) @ drop (unat sz) data)
              (unat sz) sz sz"
    using r(4) msz by simp
  have "read_loop PS p' (address + of_nat (length kfs * PS))
              (concat (map (\<lambda>(k, f). take PS f) kfs) @ drop (unat sz) data)
              (unat sz) sz sz
        = Some (Returned DEVICE_STATUS_SUCCESS,
                concat (map (\<lambda>(k, f). take PS f) kfs) @ drop (unat sz) data, p')"
    by (subst read_loop.simps) simp
  with e have rl: "read_loop PS (port device) address data 0 sz 0
        = Some (Returned DEVICE_STATUS_SUCCESS,
                concat (map (\<lambda>(k, f). take PS f) kfs) @ drop (unat sz) data, p')"
    by simp
  have c1: "oceanic_veo250_device_read PS abstract address data sz
           = Some (Returned DEVICE_STATUS_SUCCESS,
                   concat (map (\<lambda>(k, f). take PS f) kfs) @ drop (unat sz) data,
                   Some (device\<lparr>port := p'\<rparr>))"
    using h rl word_mod_packet [OF ps(2) al(1)] word_mod_packet [OF ps(2) al(2)]
    by (simp add: oceanic_veo250_device_read_def device_is_oceanic_veo250_def)
  from c1 r(1) r(3) [folded issued_append [OF r(2)]] show ?thesis by blast
qed

lemma device_read_fails:
  assumes ps: "0 < PS" "PS < 2 ^ 32"
    and h: "abstract = Some device" "backend device = oceanic_veo250_device_backend"
    and al: "unat address mod PS = 0" "unat sz mod PS = 0"
    and buf: "unat sz \<le> length data"
    and n: "length kfs < unat sz div PS"
    and ok: "\<forall>(k, f)\<in>set kfs. k \<le> MAXRETRIES \<and> length f = PS + 2 \<and> frame_ok PS f"
    and inc: "incoming (port device) = answers_script kfs @ rest"
    and bad: "fst (oceanic_veo250_transfer PS (script_port rest)
                     (read_command ((address + of_nat (length kfs * PS)) div of_nat PS))
                     (replicate (PS + 2) 0)) \<noteq> Returned DEVICE_STATUS_SUCCESS"
  shows "\<exists>p'. oceanic_veo250_device_read PS abstract address data sz
           = Some (fst (oceanic_veo250_transfer PS (script_port rest)
                     (read_command ((address + of_nat (length kfs * PS)) div of_nat PS))
                     (replicate (PS + 2) 0)),
                   concat (map (\<lambda>(k, f). take PS f) kfs) @ drop (length kfs * PS) data,
                   Some (device\<lparr>port := p'\<rparr>))
      \<and> incoming p' = incoming (snd (snd (oceanic_veo250_transfer PS (script_port rest)
                     (read_command ((address + of_nat (length kfs * PS)) div of_nat PS))
                     (replicate (PS + 2) 0))))
      \<and> writes (issued (port device) p')
          = concat (map (\<lambda>((k, f), c). replicate (Suc k) c)
                      (zip kfs (packet_commands PS address (length kfs))))
            @ writes (trace (snd (snd (oceanic_veo250_transfer PS (script_port rest)
                     (read_command ((address + of_nat (length kfs * PS)) div of_nat PS))
                     (replicate (PS + 2) 0)))))"
proof -
  let ?j = "length kfs"
  let ?cmd = "read_command ((address + of_nat (?j * PS)) div of_nat PS)"
  let ?S = "oceanic_veo250_transfer PS (script_port rest) ?cmd (replicate (PS + 2) 0)"
  let ?D = "concat (map (\<lambda>(k, f). take PS f) kfs) @ drop (?j * PS) data"
  have msz: "unat sz div PS * PS = unat sz" using al(2) by auto
  have "Suc ?j \<le> unat sz div PS" using n by simp
  then have "Suc ?j * PS \<le> unat sz div PS * PS" by (rule mult_le_mono1)
  then have jl: "?j * PS + PS \<le> unat sz" using msz by simp
  then have jlt: "?j * PS < unat sz" using ps(1) by simp
  have b3: "unat (0 :: 32 word) + ?j * PS \<le> unat sz" using jl by simp
  have b4: "0 + ?j * PS \<le> length data" using jl buf by simp
  from read_loop_prefix [OF ps ok inc b3 b4, of address] obtain p1 es where r:
    "incoming p1 = rest" "trace p1 = trace (port device) @ es"
    "writes es = concat (map (\<lambda>((k, f), c). replicate (Suc k) c)
                        (zip kfs (packet_commands PS address ?j)))"
    "read_loop PS (port device) address data 0 sz 0
          = read_loop PS p1 (address + of_nat (?j * PS))
              (take 0 data @ concat (map (\<lambda>(k, f). take PS f) kfs)
                 @ drop (0 + ?j * PS) data)
              (0 + ?j * PS) sz (0 + of_nat (?j * PS))"
    by blast
  have e: "read_loop PS (port device) address data 0 sz 0
          = read_loop PS p1 (address + of_nat (?j * PS)) ?D (?j * PS) sz (of_nat (?j * PS))"
    using r(4) by simp
  have "?j * PS < 2 ^ 32" using jlt unat_32 [of sz] by simp
  then have "unat (of_nat (?j * PS) :: 32 word) = ?j * PS" by (rule unat_packet)
  with jlt have lt: "(of_nat (?j * PS) :: 32 word) < sz" by (simp add: word_less_nat_alt)
  let ?T = "oceanic_veo250_transfer PS p1 ?cmd (replicate (PS + 2) 0)"
  have "length (replicate (PS + 2) (0 :: byte)) = PS + 2" by simp
  note tsa = transfer_on_script [OF this r(1), of ?cmd]
  have ts: "fst ?T = fst ?S" "incoming (snd (snd ?T)) = incoming (snd (snd ?S))"
    "trace (snd (snd ?T)) = trace p1 @ trace (snd (snd ?S))"
    by (rule tsa [THEN conjunct1], rule tsa [THEN conjunct2, THEN conjunct1],
        rule tsa [THEN conjunct2, THEN conjunct2])
  obtain rc answer p2 where t: "?T = (rc, answer, p2)" by (cases ?T) auto
  with ts bad have rc: "rc = fst ?S" "rc \<noteq> Returned DEVICE_STATUS_SUCCESS"
    and p2: "incoming p2 = incoming (snd (snd ?S))"
      "trace p2 = trace p1 @ trace (snd (snd ?S))"
    by simp_all
  have "read_loop PS p1 (address + of_nat (?j * PS)) ?D (?j * PS) sz (of_nat (?j * PS))
        = Some (rc, ?D, p2)"
    using lt t rc(2) by (subst read_loop.simps) simp
  with e have rl: "read_loop PS (port device) address data 0 sz 0 = Some (rc, ?D, p2)"
    by simp
  have c1: "oceanic_veo250_device_read PS abstract address data sz
           = Some (fst ?S, ?D, Some (device\<lparr>port := p2\<rparr>))"
    using h rl rc(1) word_mod_packet [OF ps(2) al(1)] word_mod_packet [OF ps(2) al(2)]
    by (simp add: oceanic_veo250_device_read_def device_is_oceanic_veo250_def)
  have tr: "trace p2 = trace (port device) @ (es @ trace (snd (snd ?S)))"
    using p2(2) r(2) by simp
  have c3: "writes (issued (port device) p2)
          = concat (map (\<lambda>((k, f), c). replicate (Suc k) c)
                      (zip kfs (packet_commands PS address ?j)))
            @ writes (trace (snd (snd ?S)))"
    unfolding issued_append [OF tr] using r(3) by (simp add: writes_append)
  from c1 p2(1) c3 show ?thesis by blast
qed

lemma single_sends:
  "length xs = length js \<Longrightarrow> \<forall>(k, f)\<in>set xs. k = 0 \<Longrightarrow>
   concat (map (\<lambda>((k, f), i). replicate (k + 1) (g i)) (zip xs js)) = map g js"
  by (induction xs js rule: list_induct2) auto

lemma length_concat_payloads:
  "\<forall>(k, f)\<in>set xs. length f = PS + 2 \<Longrightarrow>
   length (concat (map (\<lambda>(k, f). take PS f) xs)) = length xs * PS"
  by (induction xs) auto

lemma word_index:
  assumes "0 < PS" and "PS < 2 ^ 32" and "unat (address :: 32 word) + j * PS < 2 ^ 32"
  shows "(address + of_nat (j * PS)) div of_nat PS = of_nat (unat address div PS + j)"
proof -
  have "j * PS < 2 ^ 32" using assms(3) by simp
  from unat_add_packet [OF this assms(3)]
  have "unat (address + of_nat (j * PS)) = unat address + j * PS" .
  moreover have "(unat address + j * PS) div PS = unat address div PS + j"
    using assms(1) by simp
  ultimately show ?thesis using assms(2) by (simp add: word_div_packet)
qed

section \<open>The claims\<close>

subsection \<open>C1: the retry bound\<close>

text \<open>
  C1. On a port that answers the acknowledgement read with NAK exactly \<open>k\<close> times and
  then with ACK, one byte each time, the transfer goes on to the answer read (its last call
  on the port is the read of \<open>PACKET_SIZE + 2\<close> bytes) if and only if
  \<open>k \<le> MAXRETRIES\<close>; it has then sent the command \<open>k + 1\<close> times. With more NAKs it
  returns \<open>DEVICE_STATUS_PROTOCOL\<close> after \<open>MAXRETRIES + 1\<close> sends, and so it does on
  every port whose first \<open>MAXRETRIES + 1\<close> acknowledgements are NAK.
\<close>

theorem retry_bound:
  "(length answer = PACKET_SIZE + 2
      \<and> incoming p = replicate k (Delivers [NAK]) @ Delivers [ACK] # rest
    \<longrightarrow> ((\<exists>n bs. last (issued p (snd (snd (oceanic_veo250_transfer PACKET_SIZE p command answer))))
                   = SerialRead (PACKET_SIZE + 2) n bs) \<longleftrightarrow> k \<le> MAXRETRIES)
      \<and> writes (issued p (snd (snd (oceanic_veo250_transfer PACKET_SIZE p command answer))))
          = replicate (min (k + 1) (MAXRETRIES + 1)) command
      \<and> (MAXRETRIES < k \<longrightarrow>
            fst (oceanic_veo250_transfer PACKET_SIZE p command answer)
              = Returned DEVICE_STATUS_PROTOCOL))
   \<and> (length answer = PACKET_SIZE + 2
      \<and> incoming q = replicate (MAXRETRIES + 1) (Delivers [NAK]) @ rest'
    \<longrightarrow> fst (oceanic_veo250_transfer PACKET_SIZE q command answer)
          = Returned DEVICE_STATUS_PROTOCOL
      \<and> writes (issued q (snd (snd (oceanic_veo250_transfer PACKET_SIZE q command answer))))
          = replicate (MAXRETRIES + 1) command)"
proof (intro conjI impI; (elim conjE)?)
  assume len: "length answer = PACKET_SIZE + 2"
    and inc: "incoming q = replicate (MAXRETRIES + 1) (Delivers [NAK]) @ rest'"
  from transfer_exhausted [OF len inc, of command] obtain q' where e:
    "oceanic_veo250_transfer PACKET_SIZE q command answer
       = (Returned DEVICE_STATUS_PROTOCOL, answer, q')"
    "trace q' = trace q @ concat (replicate (MAXRETRIES + 1)
                        [SerialWrite command, SerialDrain, SerialRead 1 1 [NAK]])"
    by blast
  show "fst (oceanic_veo250_transfer PACKET_SIZE q command answer)
          = Returned DEVICE_STATUS_PROTOCOL"
    using e(1) by simp
  show "writes (issued q (snd (snd (oceanic_veo250_transfer PACKET_SIZE q command answer))))
          = replicate (MAXRETRIES + 1) command"
    using e(1) issued_append [OF e(2)] by (simp only: snd_conv writes_naks)
next
  assume len: "length answer = PACKET_SIZE + 2"
    and inc: "incoming p = replicate k (Delivers [NAK]) @ Delivers [ACK] # rest"
  let ?T = "oceanic_veo250_transfer PACKET_SIZE p command answer"
  have main: "((\<exists>n bs. last (issued p (snd (snd ?T))) = SerialRead (PACKET_SIZE + 2) n bs)
                 \<longleftrightarrow> k \<le> MAXRETRIES)
      \<and> writes (issued p (snd (snd ?T))) = replicate (min (k + 1) (MAXRETRIES + 1)) command
      \<and> (MAXRETRIES < k \<longrightarrow> fst ?T = Returned DEVICE_STATUS_PROTOCOL)"
  proof (cases "k \<le> MAXRETRIES")
    case True
    from transfer_acked [OF len True inc, of command] obtain p2 n bs where
      tr: "trace (snd (snd ?T)) = trace p
          @ concat (replicate k [SerialWrite command, SerialDrain, SerialRead 1 1 [NAK]])
          @ [SerialWrite command, SerialDrain, SerialRead 1 1 [ACK],
             SerialRead (PACKET_SIZE + 2) n bs]"
      by auto
    note i = issued_append [OF tr]
    have w: "writes (issued p (snd (snd ?T))) = replicate (k + 1) command"
      unfolding i by (simp add: writes_append writes_naks replicate_append_same)
    have l: "last (issued p (snd (snd ?T))) = SerialRead (PACKET_SIZE + 2) n bs"
      unfolding i by simp
    from True w l show ?thesis by (auto simp: min_def)
  next
    case False
    then have "k = (MAXRETRIES + 1) + (k - (MAXRETRIES + 1))" by simp
    then have "replicate k (Delivers [NAK])
        = replicate (MAXRETRIES + 1) (Delivers [NAK])
          @ replicate (k - (MAXRETRIES + 1)) (Delivers [NAK])"
      by (metis replicate_add)
    with inc have inc': "incoming p = replicate (MAXRETRIES + 1) (Delivers [NAK])
          @ (replicate (k - (MAXRETRIES + 1)) (Delivers [NAK]) @ Delivers [ACK] # rest)"
      by simp
    from transfer_exhausted [OF len inc', of command] obtain p' where e:
      "?T = (Returned DEVICE_STATUS_PROTOCOL, answer, p')"
      "trace p' = trace p @ concat (replicate (MAXRETRIES + 1)
                        [SerialWrite command, SerialDrain, SerialRead 1 1 [NAK]])"
      by blast
    have i: "issued p (snd (snd ?T)) = concat (replicate (MAXRETRIES + 1)
                        [SerialWrite command, SerialDrain, SerialRead 1 1 [NAK]])"
      using e(1) issued_append [OF e(2)] by simp
    have w: "writes (issued p (snd (snd ?T))) = replicate (MAXRETRIES + 1) command"
      unfolding i by (rule writes_naks)
    have l: "last (issued p (snd (snd ?T))) = SerialRead 1 1 [NAK]"
      unfolding i by (simp add: MAXRETRIES_def numeral_3_eq_3)
    from False w l e(1) show ?thesis by (auto simp: min_def)
  qed
  show "(\<exists>n bs. last (issued p (snd (snd ?T))) = SerialRead (PACKET_SIZE + 2) n bs)
                 \<longleftrightarrow> k \<le> MAXRETRIES"
    using main by blast
  show "writes (issued p (snd (snd ?T))) = replicate (min (k + 1) (MAXRETRIES + 1)) command"
    using main by blast
  show "MAXRETRIES < k \<Longrightarrow> fst ?T = Returned DEVICE_STATUS_PROTOCOL"
    using main by blast
qed

theorem retry_bound_witness:
  "(\<exists>n bs. last (issued (script_port [Delivers [NAK], Delivers [ACK]])
        (snd (snd (oceanic_veo250_transfer 8 (script_port [Delivers [NAK], Delivers [ACK]])
                     [0x90, 0x00] (replicate 10 0)))))
       = SerialRead (8 + 2) n bs)
   \<and> writes (issued (script_port [Delivers [NAK], Delivers [ACK]])
        (snd (snd (oceanic_veo250_transfer 8 (script_port [Delivers [NAK], Delivers [ACK]])
                     [0x90, 0x00] (replicate 10 0)))))
       = [[0x90, 0x00], [0x90, 0x00]]
   \<and> fst (oceanic_veo250_transfer 8
          (script_port [Delivers [NAK], Delivers [NAK], Delivers [NAK]])
          [0x90, 0x00] (replicate 10 0)) = Returned DEVICE_STATUS_PROTOCOL
   \<and> writes (issued (script_port [Delivers [NAK], Delivers [NAK], Delivers [NAK]])
        (snd (snd (oceanic_veo250_transfer 8
          (script_port [Delivers [NAK], Delivers [NAK], Delivers [NAK]])
          [0x90, 0x00] (replicate 10 0)))))
       = [[0x90, 0x00], [0x90, 0x00], [0x90, 0x00]]"
proof -
  have h1: "length (replicate 10 (0 :: byte)) = 8 + 2
      \<and> incoming (script_port [Delivers [NAK], Delivers [ACK]])
          = replicate 1 (Delivers [NAK]) @ Delivers [ACK] # []"
    by (simp add: script_port_def)
  have h2: "length (replicate 10 (0 :: byte)) = 8 + 2
      \<and> incoming (script_port [Delivers [NAK], Delivers [NAK], Delivers [NAK]])
          = replicate (MAXRETRIES + 1) (Delivers [NAK]) @ []"
    by (simp add: script_port_def MAXRETRIES_def numeral_3_eq_3)
  from retry_bound [THEN conjunct1, rule_format, OF h1, of "[0x90, 0x00]"]
       retry_bound [THEN conjunct2, rule_format, OF h2, of "[0x90, 0x00]"]
  show ?thesis by (simp add: MAXRETRIES_def numeral_3_eq_3)
qed

subsection \<open>C2: what counts as a retry\<close>

text \<open>
  C2, as stated, fails: a byte that is neither ACK nor NAK ends the loop at once. Here the
  device answers 0x00 and would answer ACK to a resend; the command is sent once, the ACK
  is never read, and the transfer returns \<open>DEVICE_STATUS_PROTOCOL\<close>.
\<close>

theorem unrecognized_byte_not_retried:
  "fst (oceanic_veo250_transfer 8 (script_port [Delivers [0x00], Delivers [ACK]])
          [0x90, 0x00] (replicate 10 0)) = Returned DEVICE_STATUS_PROTOCOL
   \<and> writes (trace (snd (snd (oceanic_veo250_transfer 8
          (script_port [Delivers [0x00], Delivers [ACK]]) [0x90, 0x00] (replicate 10 0)))))
       = [[0x90, 0x00]]
   \<and> incoming (snd (snd (oceanic_veo250_transfer 8
          (script_port [Delivers [0x00], Delivers [ACK]]) [0x90, 0x00] (replicate 10 0))))
       = [Delivers [ACK]]"
  by code_simp

text \<open>
  C2, amended. Only NAK counts as a retry. After \<open>k \<le> MAXRETRIES\<close> NAKs a byte that is
  neither ACK nor NAK ends the loop without a resend: the command has been sent \<open>k + 1\<close>
  times, the rest of the input is unread and the transfer returns
  \<open>DEVICE_STATUS_PROTOCOL\<close>. After \<open>MAXRETRIES + 1\<close> NAKs the retries are used up: the
  command has been sent \<open>MAXRETRIES + 1\<close> times and the transfer returns
  \<open>DEVICE_STATUS_PROTOCOL\<close>.
\<close>

theorem only_nak_retried:
  "(length answer = PACKET_SIZE + 2 \<and> k \<le> MAXRETRIES \<and> b \<noteq> NAK \<and> b \<noteq> ACK
      \<and> incoming p = replicate k (Delivers [NAK]) @ Delivers [b] # rest
    \<longrightarrow> fst (oceanic_veo250_transfer PACKET_SIZE p command answer)
          = Returned DEVICE_STATUS_PROTOCOL
      \<and> writes (issued p (snd (snd (oceanic_veo250_transfer PACKET_SIZE p command answer))))
          = replicate (k + 1) command
      \<and> incoming (snd (snd (oceanic_veo250_transfer PACKET_SIZE p command answer))) = rest)
   \<and> (length answer = PACKET_SIZE + 2
      \<and> incoming q = replicate (MAXRETRIES + 1) (Delivers [NAK]) @ rest'
    \<longrightarrow> fst (oceanic_veo250_transfer PACKET_SIZE q command answer)
          = Returned DEVICE_STATUS_PROTOCOL
      \<and> writes (issued q (snd (snd (oceanic_veo250_transfer PACKET_SIZE q command answer))))
          = replicate (MAXRETRIES + 1) command
      \<and> incoming (snd (snd (oceanic_veo250_transfer PACKET_SIZE q command answer))) = rest')"
proof (intro conjI impI; (elim conjE)?)
  assume len: "length answer = PACKET_SIZE + 2" and k: "k \<le> MAXRETRIES"
    and b: "b \<noteq> NAK" "b \<noteq> ACK"
    and inc: "incoming p = replicate k (Delivers [NAK]) @ Delivers [b] # rest"
  from transfer_nonack [OF len k b inc, of command] obtain p' where e:
    "oceanic_veo250_transfer PACKET_SIZE p command answer
       = (Returned DEVICE_STATUS_PROTOCOL, answer, p')"
    "incoming p' = rest"
    "trace p' = trace p
          @ (concat (replicate k [SerialWrite command, SerialDrain, SerialRead 1 1 [NAK]])
          @ [SerialWrite command, SerialDrain, SerialRead 1 1 [b]])"
    by auto
  show "fst (oceanic_veo250_transfer PACKET_SIZE p command answer)
          = Returned DEVICE_STATUS_PROTOCOL"
    using e(1) by simp
  show "writes (issued p (snd (snd (oceanic_veo250_transfer PACKET_SIZE p command answer))))
          = replicate (k + 1) command"
    using e(1) issued_append [OF e(3)]
    by (simp add: writes_append writes_naks replicate_append_same)
  show "incoming (snd (snd (oceanic_veo250_transfer PACKET_SIZE p command answer))) = rest"
    using e(1,2) by simp
next
  assume len: "length answer = PACKET_SIZE + 2"
    and inc: "incoming q = replicate (MAXRETRIES + 1) (Delivers [NAK]) @ rest'"
  from transfer_exhausted [OF len inc, of command] obtain q' where e:
    "oceanic_veo250_transfer PACKET_SIZE q command answer
       = (Returned DEVICE_STATUS_PROTOCOL, answer, q')"
    "incoming q' = rest'"
    "trace q' = trace q @ concat (replicate (MAXRETRIES + 1)
                        [SerialWrite command, SerialDrain, SerialRead 1 1 [NAK]])"
    by blast
  show "fst (oceanic_veo250_transfer PACKET_SIZE q command answer)
          = Returned DEVICE_STATUS_PROTOCOL"
    using e(1) by simp
  show "writes (issued q (snd (snd (oceanic_veo250_transfer PACKET_SIZE q command answer))))
          = replicate (MAXRETRIES + 1) command"
    using e(1) issued_append [OF e(3)] by (simp only: snd_conv writes_naks)
  show "incoming (snd (snd (oceanic_veo250_transfer PACKET_SIZE q command answer))) = rest'"
    using e(1,2) by simp
qed

theorem only_nak_retried_witness:
  "fst (oceanic_veo250_transfer 8 (script_port [Delivers [NAK], Delivers [0x00], Delivers [ACK]])
          [0x90, 0x00] (replicate 10 0)) = Returned DEVICE_STATUS_PROTOCOL
   \<and> writes (issued (script_port [Delivers [NAK], Delivers [0x00], Delivers [ACK]])
        (snd (snd (oceanic_veo250_transfer 8
           (script_port [Delivers [NAK], Delivers [0x00], Delivers [ACK]])
           [0x90, 0x00] (replicate 10 0)))))
       = [[0x90, 0x00], [0x90, 0x00]]
   \<and> incoming (snd (snd (oceanic_veo250_transfer 8
           (script_port [Delivers [NAK], Delivers [0x00], Delivers [ACK]])
           [0x90, 0x00] (replicate 10 0)))) = [Delivers [ACK]]
   \<and> fst (oceanic_veo250_transfer 8
          (script_port [Delivers [NAK], Delivers [NAK], Delivers [NAK], Delivers [ACK]])
          [0x90, 0x00] (replicate 10 0)) = Returned DEVICE_STATUS_PROTOCOL
   \<and> incoming (snd (snd (oceanic_veo250_transfer 8
          (script_port [Delivers [NAK], Delivers [NAK], Delivers [NAK], Delivers [ACK]])
          [0x90, 0x00] (replicate 10 0)))) = [Delivers [ACK]]"
proof -
  have h1: "length (replicate 10 (0 :: byte)) = 8 + 2 \<and> 1 \<le> MAXRETRIES
      \<and> (0x00 :: byte) \<noteq> NAK \<and> (0x00 :: byte) \<noteq> ACK
      \<and> incoming (script_port [Delivers [NAK], Delivers [0x00], Delivers [ACK]])
          = replicate 1 (Delivers [NAK]) @ Delivers [0x00] # [Delivers [ACK]]"
    by (simp add: script_port_def MAXRETRIES_def NAK_def ACK_def)
  have h2: "length (replicate 10 (0 :: byte)) = 8 + 2
      \<and> incoming (script_port [Delivers [NAK], Delivers [NAK], Delivers [NAK], Delivers [ACK]])
          = replicate (MAXRETRIES + 1) (Delivers [NAK]) @ [Delivers [ACK]]"
    by (simp add: script_port_def MAXRETRIES_def numeral_3_eq_3)
  from only_nak_retried [THEN conjunct1, rule_format, OF h1, of "[0x90, 0x00]"]
       only_nak_retried [THEN conjunct2, rule_format, OF h2, of "[0x90, 0x00]"]
  show ?thesis by (simp add: MAXRETRIES_def numeral_3_eq_3)
qed

subsection \<open>C3: validation of the answer frame\<close>

text \<open>
  C3. Let the device acknowledge the command (after at most \<open>MAXRETRIES\<close> NAKs) and then
  deliver a frame of \<open>PACKET_SIZE + 2\<close> bytes. If the byte at index \<open>PACKET_SIZE\<close>
  is not the sum of the first \<open>PACKET_SIZE\<close> bytes modulo 256, or the byte at index
  \<open>PACKET_SIZE + 1\<close> is not NAK (0xA5), the transfer returns
  \<open>DEVICE_STATUS_PROTOCOL\<close>. If both checks pass it returns
  \<open>DEVICE_STATUS_SUCCESS\<close> and the answer buffer holds the frame, whose first
  \<open>PACKET_SIZE\<close> bytes are the payload.
\<close>

theorem frame_validation:
  assumes "length answer = PACKET_SIZE + 2" and "length frame = PACKET_SIZE + 2"
    and "k \<le> MAXRETRIES"
    and "incoming p = replicate k (Delivers [NAK]) @ Delivers [ACK] # Delivers frame # rest"
  shows "(unat (frame ! PACKET_SIZE) \<noteq> sum_list (map unat (take PACKET_SIZE frame)) mod 256
          \<or> frame ! (PACKET_SIZE + 1) \<noteq> 0xA5
        \<longrightarrow> fst (oceanic_veo250_transfer PACKET_SIZE p command answer)
              = Returned DEVICE_STATUS_PROTOCOL)
      \<and> (unat (frame ! PACKET_SIZE) = sum_list (map unat (take PACKET_SIZE frame)) mod 256
          \<and> frame ! (PACKET_SIZE + 1) = 0xA5
        \<longrightarrow> fst (oceanic_veo250_transfer PACKET_SIZE p command answer)
              = Returned DEVICE_STATUS_SUCCESS
          \<and> fst (snd (oceanic_veo250_transfer PACKET_SIZE p command answer)) = frame
          \<and> take PACKET_SIZE (fst (snd (oceanic_veo250_transfer PACKET_SIZE p command answer)))
              = take PACKET_SIZE frame)"
proof -
  from transfer_acked [OF assms(1,3,4), of command] obtain p1 n answer' p2 where a:
    "incoming p1 = Delivers frame # rest"
    "serial_read p1 answer (PACKET_SIZE + 2) = (n, answer', p2)"
    "oceanic_veo250_transfer PACKET_SIZE p command answer
         = (Returned (if n \<noteq> int (PACKET_SIZE + 2) then EXITCODE n
                      else if frame_ok PACKET_SIZE answer' then DEVICE_STATUS_SUCCESS
                      else DEVICE_STATUS_PROTOCOL), answer', p2)"
    by blast
  have "serial_read p1 answer (PACKET_SIZE + 2) =
     (int (PACKET_SIZE + 2), frame @ drop (PACKET_SIZE + 2) answer,
      p1\<lparr>incoming := rest,
         trace := trace p1 @ [SerialRead (PACKET_SIZE + 2) (int (PACKET_SIZE + 2)) frame]\<rparr>)"
    using a(1) assms(1,2) by (intro read_delivers) simp_all
  with a(2) assms(1) have r: "n = int (PACKET_SIZE + 2)" "answer' = frame"
    by simp_all
  have t: "oceanic_veo250_transfer PACKET_SIZE p command answer
         = (Returned (if frame_ok PACKET_SIZE frame then DEVICE_STATUS_SUCCESS
                      else DEVICE_STATUS_PROTOCOL), frame, p2)"
    using a(3) r by simp
  show ?thesis
    unfolding t using frame_ok_sum [of PACKET_SIZE frame] by (auto simp: NAK_def)
qed

theorem frame_validation_witness:
  "fst (oceanic_veo250_transfer 8
          (script_port [Delivers [ACK], Delivers [1, 2, 3, 4, 5, 6, 7, 8, 0x25, 0xA5]])
          [0x90, 0x00] (replicate 10 0)) = Returned DEVICE_STATUS_PROTOCOL
   \<and> fst (oceanic_veo250_transfer 8
          (script_port [Delivers [ACK], Delivers [1, 2, 3, 4, 5, 6, 7, 8, 0x24, 0xA4]])
          [0x90, 0x00] (replicate 10 0)) = Returned DEVICE_STATUS_PROTOCOL
   \<and> fst (oceanic_veo250_transfer 8
          (script_port [Delivers [NAK], Delivers [ACK],
                        Delivers [1, 2, 3, 4, 5, 6, 7, 8, 0x24, 0xA5]])
          [0x90, 0x00] (replicate 10 0)) = Returned DEVICE_STATUS_SUCCESS
   \<and> take 8 (fst (snd (oceanic_veo250_transfer 8
          (script_port [Delivers [NAK], Delivers [ACK],
                        Delivers [1, 2, 3, 4, 5, 6, 7, 8, 0x24, 0xA5]])
          [0x90, 0x00] (replicate 10 0)))) = [1, 2, 3, 4, 5, 6, 7, 8]"
proof -
  have l: "length (replicate 10 (0 :: byte)) = 8 + 2" by simp
  have k0: "0 \<le> MAXRETRIES" and k1: "1 \<le> MAXRETRIES" by (simp_all add: MAXRETRIES_def)
  have f1: "length [1, 2, 3, 4, 5, 6, 7, 8, 0x25, 0xA5 :: byte] = 8 + 2"
    and f2: "length [1, 2, 3, 4, 5, 6, 7, 8, 0x24, 0xA4 :: byte] = 8 + 2"
    and f3: "length [1, 2, 3, 4, 5, 6, 7, 8, 0x24, 0xA5 :: byte] = 8 + 2"
    by simp_all
  have i1: "incoming (script_port [Delivers [ACK], Delivers [1, 2, 3, 4, 5, 6, 7, 8, 0x25, 0xA5]])
      = replicate 0 (Delivers [NAK]) @ Delivers [ACK]
        # Delivers [1, 2, 3, 4, 5, 6, 7, 8, 0x25, 0xA5] # []"
    by (simp add: script_port_def)
  have i2: "incoming (script_port [Delivers [ACK], Delivers [1, 2, 3, 4, 5, 6, 7, 8, 0x24, 0xA4]])
      = replicate 0 (Delivers [NAK]) @ Delivers [ACK]
        # Delivers [1, 2, 3, 4, 5, 6, 7, 8, 0x24, 0xA4] # []"
    by (simp add: script_port_def)
  have i3: "incoming (script_port [Delivers [NAK], Delivers [ACK],
                        Delivers [1, 2, 3, 4, 5, 6, 7, 8, 0x24, 0xA5]])
      = replicate 1 (Delivers [NAK]) @ Delivers [ACK]
        # Delivers [1, 2, 3, 4, 5, 6, 7, 8, 0x24, 0xA5] # []"
    by (simp add: script_port_def)
  from frame_validation [OF l f1 k0 i1, of "[0x90, 0x00]"]
       frame_validation [OF l f2 k0 i2, of "[0x90, 0x00]"]
       frame_validation [OF l f3 k1 i3, of "[0x90, 0x00]"]
  show ?thesis by simp
qed

subsection \<open>C4: packetization\<close>

text \<open>
  C4, as stated, fails. In this read of two packets from address 16 every transfer succeeds,
  the first after one NAK. The read returns \<open>DEVICE_STATUS_SUCCESS\<close>, and the command
  for packet 2 has been written twice: a transfer writes its command again after each NAK.
\<close>

theorem resend_repeats_request:
  "map_option fst
     (oceanic_veo250_device_read 8
        (Some (veo250 [Delivers [NAK], Delivers [ACK],
                       Delivers [1, 2, 3, 4, 5, 6, 7, 8, 0x24, 0xA5],
                       Delivers [ACK],
                       Delivers [16, 16, 16, 16, 16, 16, 16, 16, 0x80, 0xA5]]))
        16 (replicate 16 0) 16)
     = Some (Returned DEVICE_STATUS_SUCCESS)
   \<and> map_option (map_option (writes \<circ> trace \<circ> port) \<circ> snd \<circ> snd)
     (oceanic_veo250_device_read 8
        (Some (veo250 [Delivers [NAK], Delivers [ACK],
                       Delivers [1, 2, 3, 4, 5, 6, 7, 8, 0x24, 0xA5],
                       Delivers [ACK],
                       Delivers [16, 16, 16, 16, 16, 16, 16, 16, 0x80, 0xA5]]))
        16 (replicate 16 0) 16)
     = Some (Some [[0x20, 2, 0, 2, 0, 0], [0x20, 2, 0, 2, 0, 0], [0x20, 3, 0, 3, 0, 0]])"
  by code_simp

text \<open>
  C4, amended. Let \<open>address\<close> and \<open>size\<close> be multiples of \<open>PACKET_SIZE\<close>, the range read
  lie within the 32-bit address space, and the caller's buffer hold \<open>size\<close> bytes. Let
  every transfer succeed: for each of the \<open>size / PACKET_SIZE\<close> packets the device
  answers \<open>k \<le> MAXRETRIES\<close> NAKs, then ACK, then a frame of \<open>PACKET_SIZE + 2\<close> bytes
  with the right checksum and terminator. Then the read returns
  \<open>DEVICE_STATUS_SUCCESS\<close> and has read exactly these answers. One transfer is made
  for each packet index from \<open>address / PACKET_SIZE\<close> up to
  \<open>(address + size) / PACKET_SIZE - 1\<close>, in ascending order; the transfer of index
  \<open>i\<close> writes the command 0x20, low byte of \<open>i\<close>, high byte of \<open>i\<close>, low byte,
  high byte, 0x00 once and once more for each NAK, \<open>k + 1\<close> times in all; with no NAK
  each command is written exactly once. The first \<open>size\<close> bytes of the buffer are the
  payloads in order, \<open>size\<close> bytes in all, and the buffer beyond is unchanged.
\<close>

theorem packetization:
  assumes "0 < PACKET_SIZE" and "PACKET_SIZE < 2 ^ 32"
    and "abstract = Some device" and "backend device = oceanic_veo250_device_backend"
    and "unat address mod PACKET_SIZE = 0" and "unat sz mod PACKET_SIZE = 0"
    and "unat sz \<le> length data"
    and "unat address + unat sz \<le> 2 ^ 32"
    and "length answers = unat sz div PACKET_SIZE"
    and "\<forall>(k, frame)\<in>set answers.
           k \<le> MAXRETRIES \<and> length frame = PACKET_SIZE + 2
           \<and> unat (frame ! PACKET_SIZE) = sum_list (map unat (take PACKET_SIZE frame)) mod 256
           \<and> frame ! (PACKET_SIZE + 1) = 0xA5"
    and "incoming (port device) = answers_script answers @ rest"
  shows "\<exists>p'.
      oceanic_veo250_device_read PACKET_SIZE abstract address data sz
        = Some (Returned DEVICE_STATUS_SUCCESS,
                concat (map (\<lambda>(k, frame). take PACKET_SIZE frame) answers)
                  @ drop (unat sz) data,
                Some (device\<lparr>port := p'\<rparr>))
    \<and> incoming p' = rest
    \<and> writes (issued (port device) p')
        = concat (map (\<lambda>((k, frame), i). replicate (k + 1)
                        [0x20, of_nat (i mod 256), of_nat (i div 256 mod 256),
                         of_nat (i mod 256), of_nat (i div 256 mod 256), 0])
             (zip answers [unat address div PACKET_SIZE
                           ..< (unat address + unat sz) div PACKET_SIZE]))
    \<and> ((\<forall>(k, frame)\<in>set answers. k = 0) \<longrightarrow>
          writes (issued (port device) p')
            = map (\<lambda>i. [0x20, of_nat (i mod 256), of_nat (i div 256 mod 256),
                         of_nat (i mod 256), of_nat (i div 256 mod 256), 0])
                [unat address div PACKET_SIZE ..< (unat address + unat sz) div PACKET_SIZE])
    \<and> length (concat (map (\<lambda>(k, frame). take PACKET_SIZE frame) answers)) = unat sz"
proof -
  let ?PS = PACKET_SIZE
  let ?m = "unat sz div ?PS" and ?b = "unat address div ?PS"
  let ?bytes = "\<lambda>i::nat. [0x20, of_nat (i mod 256), of_nat (i div 256 mod 256),
                         of_nat (i mod 256), of_nat (i div 256 mod 256), 0 :: byte]"
  have ok: "\<forall>(k, f)\<in>set answers. k \<le> MAXRETRIES \<and> length f = ?PS + 2 \<and> frame_ok ?PS f"
    using assms(10) by (auto simp: frame_ok_sum NAK_def)
  from device_read_answers [OF assms(1-7,9) ok assms(11)] obtain p' where r:
    "oceanic_veo250_device_read ?PS abstract address data sz
           = Some (Returned DEVICE_STATUS_SUCCESS,
                   concat (map (\<lambda>(k, f). take ?PS f) answers) @ drop (unat sz) data,
                   Some (device\<lparr>port := p'\<rparr>))"
    "incoming p' = rest"
    "writes (issued (port device) p')
          = concat (map (\<lambda>((k, f), c). replicate (Suc k) c)
                      (zip answers (packet_commands ?PS address (length answers))))"
    by blast
  have msz: "?m * ?PS = unat sz" using assms(6) by auto
  have "(unat address + ?m * ?PS) div ?PS = ?b + ?m" using assms(1) by simp
  then have upper: "(unat address + unat sz) div ?PS = ?b + ?m" using msz by simp
  have "unat address + ?m * ?PS \<le> 2 ^ 32" using assms(8) msz by simp
  from packet_commands_nat [OF assms(1,2) this]
  have pc: "packet_commands ?PS address ?m
          = map (\<lambda>i. read_command (of_nat i)) [?b ..< ?b + ?m]" .
  have small: "i < 2 ^ 32" if "i \<in> set [?b ..< ?b + ?m]" for i
  proof -
    from that have "i < ?b + ?m" by simp
    also have "\<dots> = (unat address + unat sz) div ?PS" using upper by simp
    also have "\<dots> \<le> unat address + unat sz" by (rule div_le_dividend)
    finally show ?thesis using assms(8) by simp
  qed
  have "map (\<lambda>i. read_command (of_nat i)) [?b ..< ?b + ?m] = map ?bytes [?b ..< ?b + ?m]"
  proof (rule map_cong [OF refl])
    fix i assume "i \<in> set [?b ..< ?b + ?m]"
    then have "i < 2 ^ 32" by (rule small)
    then show "read_command (of_nat i) = ?bytes i" by (rule read_command_nat)
  qed
  with pc have pc': "packet_commands ?PS address ?m = map ?bytes [?b ..< ?b + ?m]"
    by simp
  have w: "writes (issued (port device) p')
        = concat (map (\<lambda>((k, frame), i). replicate (k + 1) (?bytes i))
             (zip answers [?b ..< (unat address + unat sz) div ?PS]))"
    unfolding r(3) assms(9) pc' upper by (simp add: zip_map2 case_prod_unfold comp_def)
  have li: "length answers = length [?b ..< (unat address + unat sz) div ?PS]"
    unfolding upper using assms(9) by simp
  have once: "writes (issued (port device) p')
            = map ?bytes [?b ..< (unat address + unat sz) div ?PS]"
    if "\<forall>(k, frame)\<in>set answers. k = 0"
    unfolding w by (rule single_sends [OF li that])
  have lc: "length (concat (map (\<lambda>(k, frame). take ?PS frame) answers)) = unat sz"
  proof -
    have "\<forall>(k, f)\<in>set answers. length f = ?PS + 2" using assms(10) by auto
    from length_concat_payloads [OF this] assms(9) msz show ?thesis by simp
  qed
  from r(1,2) w once lc show ?thesis by blast
qed

theorem packetization_witness:
  "(\<exists>p'. oceanic_veo250_device_read 8
        (Some (veo250 (answers_script
           [(1, [1, 2, 3, 4, 5, 6, 7, 8, 0x24, 0xA5]),
            (0, [16, 16, 16, 16, 16, 16, 16, 16, 0x80, 0xA5])])))
        16 (replicate 16 0) 16
      = Some (Returned DEVICE_STATUS_SUCCESS,
              [1, 2, 3, 4, 5, 6, 7, 8, 16, 16, 16, 16, 16, 16, 16, 16],
              Some ((veo250 (answers_script
                 [(1, [1, 2, 3, 4, 5, 6, 7, 8, 0x24, 0xA5]),
                  (0, [16, 16, 16, 16, 16, 16, 16, 16, 0x80, 0xA5])]))\<lparr>port := p'\<rparr>))
    \<and> incoming p' = []
    \<and> writes (issued (port (veo250 (answers_script
                 [(1, [1, 2, 3, 4, 5, 6, 7, 8, 0x24, 0xA5]),
                  (0, [16, 16, 16, 16, 16, 16, 16, 16, 0x80, 0xA5])]))) p')
        = [[0x20, 2, 0, 2, 0, 0], [0x20, 2, 0, 2, 0, 0], [0x20, 3, 0, 3, 0, 0]])
   \<and> (\<exists>p'. oceanic_veo250_device_read 8
        (Some (veo250 (answers_script
           [(0, [1, 2, 3, 4, 5, 6, 7, 8, 0x24, 0xA5]),
            (0, [16, 16, 16, 16, 16, 16, 16, 16, 0x80, 0xA5])])))
        16 (replicate 16 0) 16
      = Some (Returned DEVICE_STATUS_SUCCESS,
              [1, 2, 3, 4, 5, 6, 7, 8, 16, 16, 16, 16, 16, 16, 16, 16],
              Some ((veo250 (answers_script
                 [(0, [1, 2, 3, 4, 5, 6, 7, 8, 0x24, 0xA5]),
                  (0, [16, 16, 16, 16, 16, 16, 16, 16, 0x80, 0xA5])]))\<lparr>port := p'\<rparr>))
    \<and> writes (issued (port (veo250 (answers_script
                 [(0, [1, 2, 3, 4, 5, 6, 7, 8, 0x24, 0xA5]),
                  (0, [16, 16, 16, 16, 16, 16, 16, 16, 0x80, 0xA5])]))) p')
        = [[0x20, 2, 0, 2, 0, 0], [0x20, 3, 0, 3, 0, 0]])"
proof -
  let ?A = "[(1, [1, 2, 3, 4, 5, 6, 7, 8, 0x24, 0xA5]),
             (0, [16, 16, 16, 16, 16, 16, 16, 16, 0x80, 0xA5])] :: (nat \<times> byte list) list"
  let ?B = "[(0, [1, 2, 3, 4, 5, 6, 7, 8, 0x24, 0xA5]),
             (0, [16, 16, 16, 16, 16, 16, 16, 16, 0x80, 0xA5])] :: (nat \<times> byte list) list"
  let ?bytes = "\<lambda>i::nat. [0x20, of_nat (i mod 256), of_nat (i div 256 mod 256),
                         of_nat (i mod 256), of_nat (i div 256 mod 256), 0 :: byte]"
  let ?idx = "[unat (16 :: 32 word) div 8 ..< (unat (16 :: 32 word) + unat (16 :: 32 word)) div 8]"
  have h1: "(0 :: nat) < 8" and h2: "(8 :: nat) < 2 ^ 32"
    and h5: "unat (16 :: 32 word) mod 8 = 0"
    and h7: "unat (16 :: 32 word) \<le> length (replicate 16 (0 :: byte))"
    and h8: "unat (16 :: 32 word) + unat (16 :: 32 word) \<le> 2 ^ 32"
    and nA: "length ?A = unat (16 :: 32 word) div 8"
    and nB: "length ?B = unat (16 :: 32 word) div 8"
    by simp_all
  have bA: "backend (veo250 (answers_script ?A)) = oceanic_veo250_device_backend"
    and bB: "backend (veo250 (answers_script ?B)) = oceanic_veo250_device_backend"
    and iA: "incoming (port (veo250 (answers_script ?A))) = answers_script ?A @ []"
    and iB: "incoming (port (veo250 (answers_script ?B))) = answers_script ?B @ []"
    by (simp_all add: veo250_def script_port_def)
  have vA: "\<forall>(k, frame)\<in>set ?A.
           k \<le> MAXRETRIES \<and> length frame = 8 + 2
           \<and> unat (frame ! 8) = sum_list (map unat (take 8 frame)) mod 256
           \<and> frame ! (8 + 1) = 0xA5"
    and vB: "\<forall>(k, frame)\<in>set ?B.
           k \<le> MAXRETRIES \<and> length frame = 8 + 2
           \<and> unat (frame ! 8) = sum_list (map unat (take 8 frame)) mod 256
           \<and> frame ! (8 + 1) = 0xA5"
    and zB: "\<forall>(k, frame)\<in>set ?B. k = 0"
    by (simp_all add: MAXRETRIES_def)
  have dA: "concat (map (\<lambda>(k, frame). take 8 frame) ?A) @ drop (unat (16 :: 32 word))
              (replicate 16 0)
            = [1, 2, 3, 4, 5, 6, 7, 8, 16, 16, 16, 16, 16, 16, 16, 16]"
    and dB: "concat (map (\<lambda>(k, frame). take 8 frame) ?B) @ drop (unat (16 :: 32 word))
              (replicate 16 0)
            = [1, 2, 3, 4, 5, 6, 7, 8, 16, 16, 16, 16, 16, 16, 16, 16]"
    by simp_all
  have ix: "?idx = [2, 3]" by (simp add: upt_rec)
  have wA: "concat (map (\<lambda>((k, frame), i). replicate (k + 1) (?bytes i)) (zip ?A ?idx))
            = [[0x20, 2, 0, 2, 0, 0], [0x20, 2, 0, 2, 0, 0], [0x20, 3, 0, 3, 0, 0]]"
    unfolding ix by simp
  have wB: "map ?bytes ?idx = [[0x20, 2, 0, 2, 0, 0], [0x20, 3, 0, 3, 0, 0]]"
    unfolding ix by simp
  from packetization [OF h1 h2 refl bA h5 h5 h7 h8 nA vA iA] obtain p' where a:
    "oceanic_veo250_device_read 8 (Some (veo250 (answers_script ?A))) 16 (replicate 16 0) 16
        = Some (Returned DEVICE_STATUS_SUCCESS,
                concat (map (\<lambda>(k, frame). take 8 frame) ?A)
                  @ drop (unat (16 :: 32 word)) (replicate 16 0),
                Some ((veo250 (answers_script ?A))\<lparr>port := p'\<rparr>))"
    "incoming p' = []"
    "writes (issued (port (veo250 (answers_script ?A))) p')
        = concat (map (\<lambda>((k, frame), i). replicate (k + 1) (?bytes i)) (zip ?A ?idx))"
    by blast
  from packetization [OF h1 h2 refl bB h5 h5 h7 h8 nB vB iB] zB obtain q' where b:
    "oceanic_veo250_device_read 8 (Some (veo250 (answers_script ?B))) 16 (replicate 16 0) 16
        = Some (Returned DEVICE_STATUS_SUCCESS,
                concat (map (\<lambda>(k, frame). take 8 frame) ?B)
                  @ drop (unat (16 :: 32 word)) (replicate 16 0),
                Some ((veo250 (answers_script ?B))\<lparr>port := q'\<rparr>))"
    "writes (issued (port (veo250 (answers_script ?B))) q') = map ?bytes ?idx"
    by blast
  note a' = a(1) [unfolded dA] a(2) a(3) [unfolded wA]
  note b' = b(1) [unfolded dB] b(2) [unfolded wB]
  show ?thesis
    apply (rule conjI)
     apply (rule exI [of _ p'])
     apply (intro conjI a')
    apply (rule exI [of _ q'])
    apply (intro conjI b')
    done
qed

subsection \<open>C5: short and failed reads\<close>

text \<open>
  C5. A read of the protocol whose count differs from the requested length decides the
  status at once: the count -1 gives \<open>DEVICE_STATUS_IO\<close>, any other count gives
  \<open>DEVICE_STATUS_TIMEOUT\<close>, and the read is the last call on the port (no resend, no
  further read). The reads of a transfer ask for 1 byte (the acknowledgement) or for
  \<open>PACKET_SIZE + 2\<close> bytes (the answer), the read of the handshake for 14 bytes.
\<close>

theorem short_read_classified:
  "(length answer = PACKET_SIZE + 2
      \<and> SerialRead len n bs
           \<in> set (issued p (snd (snd (oceanic_veo250_transfer PACKET_SIZE p command answer))))
      \<and> n \<noteq> int len
    \<longrightarrow> (len = 1 \<or> len = PACKET_SIZE + 2)
      \<and> fst (oceanic_veo250_transfer PACKET_SIZE p command answer)
          = Returned (if n = - 1 then DEVICE_STATUS_IO else DEVICE_STATUS_TIMEOUT)
      \<and> last (issued p (snd (snd (oceanic_veo250_transfer PACKET_SIZE p command answer))))
          = SerialRead len n bs)
   \<and> (SerialRead len' n' bs' \<in> set (issued q (snd (oceanic_veo250_handshake q)))
      \<and> n' \<noteq> int len'
    \<longrightarrow> len' = 14
      \<and> fst (oceanic_veo250_handshake q)
          = (if n' = - 1 then DEVICE_STATUS_IO else DEVICE_STATUS_TIMEOUT)
      \<and> last (issued q (snd (oceanic_veo250_handshake q))) = SerialRead len' n' bs')"
proof (intro conjI impI; (elim conjE)?)
  obtain rc answer' p' where t:
    "oceanic_veo250_transfer PACKET_SIZE p command answer = (rc, answer', p')"
    by (cases "oceanic_veo250_transfer PACKET_SIZE p command answer") auto
  assume len: "length answer = PACKET_SIZE + 2"
    and mem: "SerialRead len n bs
           \<in> set (issued p (snd (snd (oceanic_veo250_transfer PACKET_SIZE p command answer))))"
    and ne: "n \<noteq> int len"
  from transfer_trace [OF t len] obtain es where e:
    "trace p' = trace p @ es"
    "\<forall>len n bs. SerialRead len n bs \<in> set es \<longrightarrow> n \<noteq> int len \<longrightarrow>
           rc = Returned (EXITCODE n) \<and> last es = SerialRead len n bs"
    "\<forall>len n bs. SerialRead len n bs \<in> set es \<longrightarrow> len = 1 \<or> len = PACKET_SIZE + 2"
    by blast
  have iss: "issued p (snd (snd (oceanic_veo250_transfer PACKET_SIZE p command answer))) = es"
    using issued_append [OF e(1)] t by simp
  from mem iss have m: "SerialRead len n bs \<in> set es" by simp
  show "len = 1 \<or> len = PACKET_SIZE + 2" using e(3) m by blast
  show "fst (oceanic_veo250_transfer PACKET_SIZE p command answer)
          = Returned (if n = - 1 then DEVICE_STATUS_IO else DEVICE_STATUS_TIMEOUT)"
    using e(2) m ne t by (simp add: EXITCODE_def)
  show "last (issued p (snd (snd (oceanic_veo250_transfer PACKET_SIZE p command answer))))
          = SerialRead len n bs"
    using e(2) m ne iss by simp
next
  obtain rc q' where h: "oceanic_veo250_handshake q = (rc, q')"
    by (cases "oceanic_veo250_handshake q")
  assume mem: "SerialRead len' n' bs' \<in> set (issued q (snd (oceanic_veo250_handshake q)))"
    and ne: "n' \<noteq> int len'"
  from handshake_trace [OF h] obtain n bs where e:
    "trace q' = trace q @ [SerialWrite [0x98, 0x00], SerialDrain, SerialRead 14 n bs]"
    "n \<noteq> 14 \<longrightarrow> rc = EXITCODE n"
    by blast
  have iss: "issued q (snd (oceanic_veo250_handshake q))
            = [SerialWrite [0x98, 0x00], SerialDrain, SerialRead 14 n bs]"
    using issued_append [OF e(1)] h by simp
  from mem iss have eq: "len' = 14" "n' = n" "bs' = bs" by simp_all
  show "len' = 14" by (rule eq(1))
  show "fst (oceanic_veo250_handshake q)
          = (if n' = - 1 then DEVICE_STATUS_IO else DEVICE_STATUS_TIMEOUT)"
    using e(2) eq ne h by (simp add: EXITCODE_def)
  show "last (issued q (snd (oceanic_veo250_handshake q))) = SerialRead len' n' bs'"
    using iss eq by simp
qed

theorem short_read_classified_witness:
  "fst (oceanic_veo250_transfer 8 (script_port [Delivers [NAK], Fails]) [0x90, 0x00]
          (replicate 10 0)) = Returned DEVICE_STATUS_IO
   \<and> last (issued (script_port [Delivers [NAK], Fails])
          (snd (snd (oceanic_veo250_transfer 8 (script_port [Delivers [NAK], Fails])
             [0x90, 0x00] (replicate 10 0))))) = SerialRead 1 (- 1) []
   \<and> fst (oceanic_veo250_handshake (script_port [Delivers [0x50, 0x50]]))
       = DEVICE_STATUS_TIMEOUT"
proof -
  let ?p = "script_port [Delivers [NAK], Fails]"
  let ?q = "script_port [Delivers [0x50, 0x50]]"
  have h1: "length (replicate 10 (0 :: byte)) = 8 + 2
      \<and> SerialRead 1 (- 1) []
           \<in> set (issued ?p (snd (snd (oceanic_veo250_transfer 8 ?p [0x90, 0x00]
                                         (replicate 10 0)))))
      \<and> (- 1 :: int) \<noteq> int 1"
    by code_simp
  have h2: "SerialRead 14 2 [0x50, 0x50] \<in> set (issued ?q (snd (oceanic_veo250_handshake ?q)))
      \<and> (2 :: int) \<noteq> int 14"
    by code_simp
  from short_read_classified [THEN conjunct1, rule_format, OF h1]
       short_read_classified [THEN conjunct2, rule_format, OF h2]
  show ?thesis by simp
qed

subsection \<open>C6: the size check of dump\<close>

text \<open>
  C6. On a Veo 250 handle, a dump into a buffer of capacity \<open>size < MEMORY_SIZE\<close> returns
  \<open>DEVICE_STATUS_ERROR\<close> (the size error of dump) with the port, the buffer and the
  result location as they were: no call is made on the port. With
  \<open>size \<ge> MEMORY_SIZE\<close> the dump is the read of \<open>MEMORY_SIZE\<close> bytes from address 0
  into the same buffer; it returns what that read returns and, when that is
  \<open>DEVICE_STATUS_SUCCESS\<close>, stores \<open>MEMORY_SIZE\<close> in the result location (when the
  caller gave one). When \<open>MEMORY_SIZE\<close> is a multiple of \<open>PACKET_SIZE\<close> and the buffer
  holds \<open>MEMORY_SIZE\<close> bytes, the dump returns.
\<close>

theorem dump_sizing:
  assumes "abstract = Some device" and "backend device = oceanic_veo250_device_backend"
    and "MEMORY_SIZE < 2 ^ 32"
  shows "(unat sz < MEMORY_SIZE \<longrightarrow>
            oceanic_veo250_device_dump PACKET_SIZE MEMORY_SIZE abstract data sz result
              = Some (Returned DEVICE_STATUS_ERROR, data, abstract, result))
       \<and> (MEMORY_SIZE \<le> unat sz \<longrightarrow>
            oceanic_veo250_device_dump PACKET_SIZE MEMORY_SIZE abstract data sz result
              = (case oceanic_veo250_device_read PACKET_SIZE abstract 0 data
                        (of_nat MEMORY_SIZE) of
                   None \<Rightarrow> None
                 | Some (rc, data', abstract') \<Rightarrow>
                     Some (rc, data', abstract',
                           if rc = Returned DEVICE_STATUS_SUCCESS
                           then (case result of None \<Rightarrow> None
                                 | Some old \<Rightarrow> Some (of_nat MEMORY_SIZE))
                           else result)))
       \<and> (MEMORY_SIZE \<le> unat sz \<and> 0 < PACKET_SIZE \<and> PACKET_SIZE < 2 ^ 32
            \<and> MEMORY_SIZE mod PACKET_SIZE = 0 \<and> MEMORY_SIZE \<le> length data \<longrightarrow>
            (\<exists>rc data' p'.
               oceanic_veo250_device_dump PACKET_SIZE MEMORY_SIZE abstract data sz result
                 = Some (rc, data', Some (device\<lparr>port := p'\<rparr>),
                         if rc = Returned DEVICE_STATUS_SUCCESS
                         then (case result of None \<Rightarrow> None
                               | Some old \<Rightarrow> Some (of_nat MEMORY_SIZE))
                         else result)
             \<and> (rc = Returned DEVICE_STATUS_SUCCESS \<longrightarrow>
                  take MEMORY_SIZE data'
                    = concat (payloads PACKET_SIZE (issued (port device) p'))
                  \<and> length (concat (payloads PACKET_SIZE (issued (port device) p')))
                    = MEMORY_SIZE)))"
proof (intro conjI impI)
  have v: "device_is_oceanic_veo250 abstract"
    using assms(1,2) by (simp add: device_is_oceanic_veo250_def)
  have um: "unat (of_nat MEMORY_SIZE :: 32 word) = MEMORY_SIZE"
    using assms(3) by (rule unat_packet)
  {
    assume "unat sz < MEMORY_SIZE"
    then have "sz < of_nat MEMORY_SIZE" using um by (simp add: word_less_nat_alt)
    then show "oceanic_veo250_device_dump PACKET_SIZE MEMORY_SIZE abstract data sz result
              = Some (Returned DEVICE_STATUS_ERROR, data, abstract, result)"
      using v by (simp add: oceanic_veo250_device_dump_def)
  }
  {
    assume "MEMORY_SIZE \<le> unat sz"
    then have ge: "\<not> sz < of_nat MEMORY_SIZE" using um by (simp add: word_less_nat_alt)
    then show "oceanic_veo250_device_dump PACKET_SIZE MEMORY_SIZE abstract data sz result
              = (case oceanic_veo250_device_read PACKET_SIZE abstract 0 data
                        (of_nat MEMORY_SIZE) of
                   None \<Rightarrow> None
                 | Some (rc, data', abstract') \<Rightarrow>
                     Some (rc, data', abstract',
                           if rc = Returned DEVICE_STATUS_SUCCESS
                           then (case result of None \<Rightarrow> None
                                 | Some old \<Rightarrow> Some (of_nat MEMORY_SIZE))
                           else result))"
      using v by (simp add: oceanic_veo250_device_dump_def split: option.splits)
  }
  {
    assume a: "MEMORY_SIZE \<le> unat sz \<and> 0 < PACKET_SIZE \<and> PACKET_SIZE < 2 ^ 32
            \<and> MEMORY_SIZE mod PACKET_SIZE = 0 \<and> MEMORY_SIZE \<le> length data"
    then have ge: "\<not> sz < of_nat MEMORY_SIZE" using um by (simp add: word_less_nat_alt)
    have h5: "unat (0 :: 32 word) mod PACKET_SIZE = 0" by simp
    have h6: "unat (of_nat MEMORY_SIZE :: 32 word) mod PACKET_SIZE = 0" using a um by simp
    have h7: "unat (of_nat MEMORY_SIZE :: 32 word) \<le> length data" using a um by simp
    from a have ps: "0 < PACKET_SIZE" "PACKET_SIZE < 2 ^ 32" by simp_all
    from device_read_buffer [OF ps assms(1,2) h5 h6 h7]
    obtain rc data' p' where r:
      "oceanic_veo250_device_read PACKET_SIZE abstract 0 data (of_nat MEMORY_SIZE)
        = Some (rc, data', Some (device\<lparr>port := p'\<rparr>))"
      "rc = Returned DEVICE_STATUS_SUCCESS \<longrightarrow>
          take MEMORY_SIZE data' = concat (payloads PACKET_SIZE (issued (port device) p'))
        \<and> length (concat (payloads PACKET_SIZE (issued (port device) p'))) = MEMORY_SIZE"
      unfolding um by blast
    have d: "oceanic_veo250_device_dump PACKET_SIZE MEMORY_SIZE abstract data sz result
                 = Some (rc, data', Some (device\<lparr>port := p'\<rparr>),
                         if rc = Returned DEVICE_STATUS_SUCCESS
                         then (case result of None \<Rightarrow> None
                               | Some old \<Rightarrow> Some (of_nat MEMORY_SIZE))
                         else result)"
      using v ge r(1) by (simp add: oceanic_veo250_device_dump_def)
    from d r(2)
    show "\<exists>rc data' p'.
               oceanic_veo250_device_dump PACKET_SIZE MEMORY_SIZE abstract data sz result
                 = Some (rc, data', Some (device\<lparr>port := p'\<rparr>),
                         if rc = Returned DEVICE_STATUS_SUCCESS
                         then (case result of None \<Rightarrow> None
                               | Some old \<Rightarrow> Some (of_nat MEMORY_SIZE))
                         else result)
             \<and> (rc = Returned DEVICE_STATUS_SUCCESS \<longrightarrow>
                  take MEMORY_SIZE data'
                    = concat (payloads PACKET_SIZE (issued (port device) p'))
                  \<and> length (concat (payloads PACKET_SIZE (issued (port device) p')))
                    = MEMORY_SIZE)"
      by blast
  }
qed

theorem dump_sizing_witness:
  "oceanic_veo250_device_dump 8 16
      (Some (veo250 [Delivers [ACK], Delivers [1, 2, 3, 4, 5, 6, 7, 8, 0x24, 0xA5],
                     Delivers [ACK], Delivers [16, 16, 16, 16, 16, 16, 16, 16, 0x80, 0xA5]]))
      (replicate 16 0) 8 (Some 0)
     = Some (Returned DEVICE_STATUS_ERROR, replicate 16 0,
         Some (veo250 [Delivers [ACK], Delivers [1, 2, 3, 4, 5, 6, 7, 8, 0x24, 0xA5],
                     Delivers [ACK], Delivers [16, 16, 16, 16, 16, 16, 16, 16, 0x80, 0xA5]]),
         Some 0)
   \<and> (\<exists>data' p'.
        oceanic_veo250_device_dump 8 16
          (Some (veo250 [Delivers [ACK], Delivers [1, 2, 3, 4, 5, 6, 7, 8, 0x24, 0xA5],
                     Delivers [ACK], Delivers [16, 16, 16, 16, 16, 16, 16, 16, 0x80, 0xA5]]))
          (replicate 16 0) 16 (Some 0)
        = Some (Returned DEVICE_STATUS_SUCCESS, data',
            Some ((veo250 [Delivers [ACK], Delivers [1, 2, 3, 4, 5, 6, 7, 8, 0x24, 0xA5],
                     Delivers [ACK],
                     Delivers [16, 16, 16, 16, 16, 16, 16, 16, 0x80, 0xA5]])\<lparr>port := p'\<rparr>),
            Some 16)
      \<and> take 16 data'
          = concat (payloads 8 (issued (port (veo250 [Delivers [ACK],
                     Delivers [1, 2, 3, 4, 5, 6, 7, 8, 0x24, 0xA5],
                     Delivers [ACK],
                     Delivers [16, 16, 16, 16, 16, 16, 16, 16, 0x80, 0xA5]])) p')))"
proof -
  let ?rs = "[Delivers [ACK], Delivers [1, 2, 3, 4, 5, 6, 7, 8, 0x24, 0xA5],
              Delivers [ACK], Delivers [16, 16, 16, 16, 16, 16, 16, 16, 0x80, 0xA5]]"
  let ?D = "oceanic_veo250_device_dump 8 16 (Some (veo250 ?rs)) (replicate 16 0) 16 (Some 0)"
  have b: "backend (veo250 ?rs) = oceanic_veo250_device_backend"
    by (simp add: veo250_def)
  have m: "(16 :: nat) < 2 ^ 32" by simp
  have h1: "unat (8 :: 32 word) < 16" by simp
  have h3: "16 \<le> unat (16 :: 32 word) \<and> (0 :: nat) < 8 \<and> (8 :: nat) < 2 ^ 32
            \<and> (16 :: nat) mod 8 = 0 \<and> 16 \<le> length (replicate 16 (0 :: byte))"
    by simp
  have ev: "map_option fst ?D = Some (Returned DEVICE_STATUS_SUCCESS)"
    by code_simp
  note T = dump_sizing [OF refl b m, where PACKET_SIZE = 8 and data = "replicate 16 0"
                          and result = "Some 0"]
  from T [where sz = 8, THEN conjunct1, rule_format, OF h1]
  have c1: "oceanic_veo250_device_dump 8 16 (Some (veo250 ?rs)) (replicate 16 0) 8 (Some 0)
     = Some (Returned DEVICE_STATUS_ERROR, replicate 16 0, Some (veo250 ?rs), Some 0)" .
  from T [where sz = 16, THEN conjunct2, THEN conjunct2, rule_format, OF h3]
  obtain rc data' p' where r:
    "?D = Some (rc, data', Some ((veo250 ?rs)\<lparr>port := p'\<rparr>),
                if rc = Returned DEVICE_STATUS_SUCCESS
                then (case Some (0 :: 32 word) of None \<Rightarrow> None
                      | Some old \<Rightarrow> Some (of_nat 16))
                else Some 0)"
    "rc = Returned DEVICE_STATUS_SUCCESS \<longrightarrow>
       take 16 data' = concat (payloads 8 (issued (port (veo250 ?rs)) p'))
       \<and> length (concat (payloads 8 (issued (port (veo250 ?rs)) p'))) = 16"
    by blast
  from ev r(1) have ok: "rc = Returned DEVICE_STATUS_SUCCESS" by simp
  from r(1) ok have c2: "?D = Some (Returned DEVICE_STATUS_SUCCESS, data',
            Some ((veo250 ?rs)\<lparr>port := p'\<rparr>), Some 16)"
    by simp
  from r(2) ok have c3: "take 16 data' = concat (payloads 8 (issued (port (veo250 ?rs)) p'))"
    by simp
  show ?thesis
    by (rule conjI [OF c1], rule exI [of _ data'], rule exI [of _ p']) (intro conjI c2 c3)
qed

subsection \<open>C7: a failure in the middle of a read\<close>

text \<open>
  C7, as stated, fails. A read of five packets whose third transfer fails (the
  acknowledgement read returns -1) returns \<open>DEVICE_STATUS_IO\<close>, and the caller's buffer
  of 40 bytes, filled with 0xEE before the call, holds the payloads of the first two
  packets in its first 16 bytes: each payload is copied into the caller's buffer as soon
  as its transfer has succeeded.
\<close>

theorem read_failure_exposes_prefix:
  "map_option fst
     (oceanic_veo250_device_read 8
        (Some (veo250 [Delivers [ACK], Delivers [1, 2, 3, 4, 5, 6, 7, 8, 0x24, 0xA5],
                       Delivers [ACK], Delivers [16, 16, 16, 16, 16, 16, 16, 16, 0x80, 0xA5],
                       Fails]))
        0 (replicate 40 0xEE) 40)
     = Some (Returned DEVICE_STATUS_IO)
   \<and> map_option (fst \<circ> snd)
     (oceanic_veo250_device_read 8
        (Some (veo250 [Delivers [ACK], Delivers [1, 2, 3, 4, 5, 6, 7, 8, 0x24, 0xA5],
                       Delivers [ACK], Delivers [16, 16, 16, 16, 16, 16, 16, 16, 0x80, 0xA5],
                       Fails]))
        0 (replicate 40 0xEE) 40)
     = Some ([1, 2, 3, 4, 5, 6, 7, 8, 16, 16, 16, 16, 16, 16, 16, 16] @ replicate 24 0xEE)"
  by code_simp

text \<open>
  C7, amended. Let the first \<open>j\<close> transfers of a read succeed (\<open>j\<close> may be 0) and the
  next one fail: on a port that has the rest of the device's answers to come, the transfer
  of the command for packet \<open>address / PACKET_SIZE + j\<close> returns a status \<open>rc\<close> other
  than \<open>DEVICE_STATUS_SUCCESS\<close>. Then the read returns \<open>rc\<close> at once: after the sends
  of the \<open>j\<close> successful transfers it writes only what the failing transfer writes (its
  command, 1 to \<open>MAXRETRIES + 1\<close> times) and reads only what that transfer reads, so
  no command for a later packet is written. No length is reported. The caller's buffer is
  written in place: its first \<open>j * PACKET_SIZE\<close> bytes are the payloads of the \<open>j\<close>
  packets transferred before the failure, in order, and the rest of the buffer is as it was
  (all of it when the first transfer fails).
\<close>

theorem read_failure_keeps_prefix:
  assumes "0 < PACKET_SIZE" and "PACKET_SIZE < 2 ^ 32"
    and "abstract = Some device" and "backend device = oceanic_veo250_device_backend"
    and "unat address mod PACKET_SIZE = 0" and "unat sz mod PACKET_SIZE = 0"
    and "unat sz \<le> length data"
    and "unat address + unat sz \<le> 2 ^ 32"
    and "length answers < unat sz div PACKET_SIZE"
    and "\<forall>(k, frame)\<in>set answers.
           k \<le> MAXRETRIES \<and> length frame = PACKET_SIZE + 2
           \<and> unat (frame ! PACKET_SIZE) = sum_list (map unat (take PACKET_SIZE frame)) mod 256
           \<and> frame ! (PACKET_SIZE + 1) = 0xA5"
    and "incoming (port device) = answers_script answers @ rest"
    and "fst (oceanic_veo250_transfer PACKET_SIZE (script_port rest)
                (read_command (of_nat (unat address div PACKET_SIZE + length answers)))
                (replicate (PACKET_SIZE + 2) 0)) = rc"
    and "rc \<noteq> Returned DEVICE_STATUS_SUCCESS"
  shows "\<exists>p'.
      oceanic_veo250_device_read PACKET_SIZE abstract address data sz
        = Some (rc,
                concat (map (\<lambda>(k, frame). take PACKET_SIZE frame) answers)
                  @ drop (length answers * PACKET_SIZE) data,
                Some (device\<lparr>port := p'\<rparr>))
    \<and> incoming p'
        = incoming (snd (snd (oceanic_veo250_transfer PACKET_SIZE (script_port rest)
                (read_command (of_nat (unat address div PACKET_SIZE + length answers)))
                (replicate (PACKET_SIZE + 2) 0))))
    \<and> writes (issued (port device) p')
        = concat (map (\<lambda>((k, frame), i). replicate (k + 1) (read_command (of_nat i)))
             (zip answers [unat address div PACKET_SIZE
                           ..< unat address div PACKET_SIZE + length answers]))
          @ writes (trace (snd (snd (oceanic_veo250_transfer PACKET_SIZE (script_port rest)
                (read_command (of_nat (unat address div PACKET_SIZE + length answers)))
                (replicate (PACKET_SIZE + 2) 0)))))
    \<and> (\<exists>n. 1 \<le> n \<and> n \<le> MAXRETRIES + 1
          \<and> writes (trace (snd (snd (oceanic_veo250_transfer PACKET_SIZE (script_port rest)
                (read_command (of_nat (unat address div PACKET_SIZE + length answers)))
                (replicate (PACKET_SIZE + 2) 0)))))
            = replicate n
                (read_command (of_nat (unat address div PACKET_SIZE + length answers))))
    \<and> length (concat (map (\<lambda>(k, frame). take PACKET_SIZE frame) answers))
        = length answers * PACKET_SIZE"
proof -
  let ?PS = PACKET_SIZE
  let ?j = "length answers" and ?b = "unat address div ?PS"
  let ?cmd = "read_command (of_nat (?b + ?j))"
  let ?S = "oceanic_veo250_transfer ?PS (script_port rest) ?cmd (replicate (?PS + 2) 0)"
  have ok: "\<forall>(k, f)\<in>set answers. k \<le> MAXRETRIES \<and> length f = ?PS + 2 \<and> frame_ok ?PS f"
    using assms(10) by (auto simp: frame_ok_sum NAK_def)
  have msz: "unat sz div ?PS * ?PS = unat sz" using assms(6) by auto
  have "Suc ?j \<le> unat sz div ?PS" using assms(9) by simp
  then have "Suc ?j * ?PS \<le> unat sz div ?PS * ?PS" by (rule mult_le_mono1)
  then have jl: "?j * ?PS + ?PS \<le> unat sz" using msz by simp
  then have jlt: "unat address + ?j * ?PS < 2 ^ 32" using assms(1,8) by simp
  from word_index [OF assms(1,2) jlt]
  have ci: "read_command ((address + of_nat (?j * ?PS)) div of_nat ?PS) = ?cmd" by simp
  have bad: "fst (oceanic_veo250_transfer ?PS (script_port rest)
                     (read_command ((address + of_nat (?j * ?PS)) div of_nat ?PS))
                     (replicate (?PS + 2) 0)) \<noteq> Returned DEVICE_STATUS_SUCCESS"
    unfolding ci using assms(12,13) by simp
  from device_read_fails [OF assms(1-7,9) ok assms(11) bad, unfolded ci] obtain p' where r:
    "oceanic_veo250_device_read ?PS abstract address data sz
           = Some (fst ?S,
                   concat (map (\<lambda>(k, f). take ?PS f) answers) @ drop (?j * ?PS) data,
                   Some (device\<lparr>port := p'\<rparr>))"
    "incoming p' = incoming (snd (snd ?S))"
    "writes (issued (port device) p')
          = concat (map (\<lambda>((k, f), c). replicate (Suc k) c)
                      (zip answers (packet_commands ?PS address ?j)))
            @ writes (trace (snd (snd ?S)))"
    by blast
  have "unat address + ?j * ?PS \<le> 2 ^ 32" using jlt by simp
  from packet_commands_nat [OF assms(1,2) this]
  have pc: "packet_commands ?PS address ?j
          = map (\<lambda>i. read_command (of_nat i)) [?b ..< ?b + ?j]" .
  have c1: "oceanic_veo250_device_read ?PS abstract address data sz
        = Some (rc, concat (map (\<lambda>(k, frame). take ?PS frame) answers)
                  @ drop (?j * ?PS) data,
                Some (device\<lparr>port := p'\<rparr>))"
    using r(1) assms(12) by simp
  have c3: "writes (issued (port device) p')
        = concat (map (\<lambda>((k, frame), i). replicate (k + 1) (read_command (of_nat i)))
             (zip answers [?b ..< ?b + ?j]))
          @ writes (trace (snd (snd ?S)))"
    unfolding r(3) pc by (simp add: zip_map2 case_prod_unfold comp_def)
  have c4: "\<exists>n. 1 \<le> n \<and> n \<le> MAXRETRIES + 1
          \<and> writes (trace (snd (snd ?S))) = replicate n ?cmd"
  proof -
    obtain rc0 answer0 q0 where s: "?S = (rc0, answer0, q0)" by (cases ?S) auto
    have "length (replicate (?PS + 2) (0 :: byte)) = ?PS + 2" by simp
    from transfer_trace [OF s this] obtain es n where
      "trace q0 = trace (script_port rest) @ es" "writes es = replicate n ?cmd"
      "1 \<le> n" "n \<le> MAXRETRIES + 1"
      by blast
    then have "writes (trace q0) = replicate n ?cmd \<and> 1 \<le> n \<and> n \<le> MAXRETRIES + 1"
      by (simp add: script_port_def)
    with s show ?thesis by auto
  qed
  have c5: "length (concat (map (\<lambda>(k, frame). take ?PS frame) answers)) = ?j * ?PS"
  proof -
    have "\<forall>(k, f)\<in>set answers. length f = ?PS + 2" using assms(10) by auto
    from length_concat_payloads [OF this] show ?thesis .
  qed
  from c1 r(2) c3 c4 c5 show ?thesis by blast
qed

theorem read_failure_keeps_prefix_witness:
  "(\<exists>p'. oceanic_veo250_device_read 8
        (Some (veo250 (answers_script [(0, [1, 2, 3, 4, 5, 6, 7, 8, 0x24, 0xA5])] @ [Fails])))
        0 (replicate 16 0xEE) 16
      = Some (Returned DEVICE_STATUS_IO,
              [1, 2, 3, 4, 5, 6, 7, 8, 0xEE, 0xEE, 0xEE, 0xEE, 0xEE, 0xEE, 0xEE, 0xEE],
              Some ((veo250 (answers_script [(0, [1, 2, 3, 4, 5, 6, 7, 8, 0x24, 0xA5])]
                             @ [Fails]))\<lparr>port := p'\<rparr>))
    \<and> writes (issued (port (veo250 (answers_script
                 [(0, [1, 2, 3, 4, 5, 6, 7, 8, 0x24, 0xA5])] @ [Fails]))) p')
        = [[0x20, 0, 0, 0, 0, 0], [0x20, 1, 0, 1, 0, 0]])
   \<and> (\<exists>p'. oceanic_veo250_device_read 8
        (Some (veo250 (answers_script [] @ [Fails]))) 0 (replicate 16 0xEE) 16
      = Some (Returned DEVICE_STATUS_IO, replicate 16 0xEE,
              Some ((veo250 (answers_script [] @ [Fails]))\<lparr>port := p'\<rparr>))
    \<and> writes (issued (port (veo250 (answers_script [] @ [Fails]))) p')
        = [[0x20, 0, 0, 0, 0, 0]])"
proof -
  let ?A = "[(0, [1, 2, 3, 4, 5, 6, 7, 8, 0x24, 0xA5])] :: (nat \<times> byte list) list"
  let ?N = "[] :: (nat \<times> byte list) list"
  let ?SA = "oceanic_veo250_transfer 8 (script_port [Fails])
                (read_command (of_nat (unat (0 :: 32 word) div 8 + length ?A)))
                (replicate (8 + 2) 0)"
  let ?SN = "oceanic_veo250_transfer 8 (script_port [Fails])
                (read_command (of_nat (unat (0 :: 32 word) div 8 + length ?N)))
                (replicate (8 + 2) 0)"
  have h1: "(0 :: nat) < 8" and h2: "(8 :: nat) < 2 ^ 32"
    and h5: "unat (0 :: 32 word) mod 8 = 0" and h6: "unat (16 :: 32 word) mod 8 = 0"
    and h7: "unat (16 :: 32 word) \<le> length (replicate 16 (0xEE :: byte))"
    and h8: "unat (0 :: 32 word) + unat (16 :: 32 word) \<le> 2 ^ 32"
    and nA: "length ?A < unat (16 :: 32 word) div 8"
    and nN: "length ?N < unat (16 :: 32 word) div 8"
    by simp_all
  have bA: "backend (veo250 (answers_script ?A @ [Fails])) = oceanic_veo250_device_backend"
    and bN: "backend (veo250 (answers_script ?N @ [Fails])) = oceanic_veo250_device_backend"
    and iA: "incoming (port (veo250 (answers_script ?A @ [Fails]))) = answers_script ?A @ [Fails]"
    and iN: "incoming (port (veo250 (answers_script ?N @ [Fails]))) = answers_script ?N @ [Fails]"
    by (simp_all add: veo250_def script_port_def)
  have vA: "\<forall>(k, frame)\<in>set ?A.
           k \<le> MAXRETRIES \<and> length frame = 8 + 2
           \<and> unat (frame ! 8) = sum_list (map unat (take 8 frame)) mod 256
           \<and> frame ! (8 + 1) = 0xA5"
    and vN: "\<forall>(k, frame)\<in>set ?N.
           k \<le> MAXRETRIES \<and> length frame = 8 + 2
           \<and> unat (frame ! 8) = sum_list (map unat (take 8 frame)) mod 256
           \<and> frame ! (8 + 1) = 0xA5"
    by (simp_all add: MAXRETRIES_def)
  have fA: "fst ?SA = Returned DEVICE_STATUS_IO" and fN: "fst ?SN = Returned DEVICE_STATUS_IO"
    by code_simp+
  have ne: "Returned DEVICE_STATUS_IO \<noteq> Returned DEVICE_STATUS_SUCCESS" by simp
  have tA: "writes (trace (snd (snd ?SA))) = [[0x20, 1, 0, 1, 0, 0]]"
    and tN: "writes (trace (snd (snd ?SN))) = [[0x20, 0, 0, 0, 0, 0]]"
    by code_simp+
  have dA: "concat (map (\<lambda>(k, frame). take 8 frame) ?A) @ drop (length ?A * 8)
              (replicate 16 0xEE)
            = [1, 2, 3, 4, 5, 6, 7, 8, 0xEE, 0xEE, 0xEE, 0xEE, 0xEE, 0xEE, 0xEE, 0xEE]"
    and dN: "concat (map (\<lambda>(k, frame). take 8 frame) ?N) @ drop (length ?N * 8)
              (replicate 16 0xEE) = replicate 16 (0xEE :: byte)"
    by code_simp+
  have wA: "concat (map (\<lambda>((k, frame), i). replicate (k + 1) (read_command (of_nat i)))
             (zip ?A [unat (0 :: 32 word) div 8 ..< unat (0 :: 32 word) div 8 + length ?A]))
            = [[0x20, 0, 0, 0, 0, 0]]"
    and wN: "concat (map (\<lambda>((k, frame), i). replicate (k + 1) (read_command (of_nat i)))
             (zip ?N [unat (0 :: 32 word) div 8 ..< unat (0 :: 32 word) div 8 + length ?N]))
            = []"
    by (simp_all add: read_command_def)
  from read_failure_keeps_prefix [OF h1 h2 refl bA h5 h6 h7 h8 nA vA iA fA ne]
  obtain p' where a:
    "oceanic_veo250_device_read 8 (Some (veo250 (answers_script ?A @ [Fails]))) 0
        (replicate 16 0xEE) 16
        = Some (Returned DEVICE_STATUS_IO,
                concat (map (\<lambda>(k, frame). take 8 frame) ?A)
                  @ drop (length ?A * 8) (replicate 16 0xEE),
                Some ((veo250 (answers_script ?A @ [Fails]))\<lparr>port := p'\<rparr>))"
    "writes (issued (port (veo250 (answers_script ?A @ [Fails]))) p')
        = concat (map (\<lambda>((k, frame), i). replicate (k + 1) (read_command (of_nat i)))
             (zip ?A [unat (0 :: 32 word) div 8 ..< unat (0 :: 32 word) div 8 + length ?A]))
          @ writes (trace (snd (snd ?SA)))"
    by blast
  from read_failure_keeps_prefix [OF h1 h2 refl bN h5 h6 h7 h8 nN vN iN fN ne]
  obtain q' where b:
    "oceanic_veo250_device_read 8 (Some (veo250 (answers_script ?N @ [Fails]))) 0
        (replicate 16 0xEE) 16
        = Some (Returned DEVICE_STATUS_IO,
                concat (map (\<lambda>(k, frame). take 8 frame) ?N)
                  @ drop (length ?N * 8) (replicate 16 0xEE),
                Some ((veo250 (answers_script ?N @ [Fails]))\<lparr>port := q'\<rparr>))"
    "writes (issued (port (veo250 (answers_script ?N @ [Fails]))) q')
        = concat (map (\<lambda>((k, frame), i). replicate (k + 1) (read_command (of_nat i)))
             (zip ?N [unat (0 :: 32 word) div 8 ..< unat (0 :: 32 word) div 8 + length ?N]))
          @ writes (trace (snd (snd ?SN)))"
    by blast
  have a2: "writes (issued (port (veo250 (answers_script ?A @ [Fails]))) p')
        = [[0x20, 0, 0, 0, 0, 0], [0x20, 1, 0, 1, 0, 0]]"
    unfolding a(2) wA tA by simp
  have b2: "writes (issued (port (veo250 (answers_script ?N @ [Fails]))) q')
        = [[0x20, 0, 0, 0, 0, 0]]"
    unfolding b(2) wN tN by simp
  note a1 = a(1) [unfolded dA] and b1 = b(1) [unfolded dN]
  show ?thesis
    apply (rule conjI)
     apply (rule exI [of _ p'])
     apply (intro conjI a1 a2)
    apply (rule exI [of _ q'])
    apply (intro conjI b1 b2)
    done
qed

subsection \<open>C8: close\<close>

text \<open>
  C8. On a Veo 250 handle close makes the handshake exchange (the command 0x98 0x00
  written and drained, 14 bytes asked for), then closes the port and frees the object,
  whatever the device sends and so whatever the handshake returns. Its status is
  \<open>DEVICE_STATUS_IO\<close> when \<^verbatim>\<open>serial_close\<close> returns -1 and
  \<open>DEVICE_STATUS_SUCCESS\<close> otherwise.
\<close>

theorem close_releases:
  assumes "abstract = Some device" and "backend device = oceanic_veo250_device_backend"
  shows "\<exists>n bs p'.
       oceanic_veo250_device_close abstract
         = (if close_result (port device) = - 1 then DEVICE_STATUS_IO
            else DEVICE_STATUS_SUCCESS,
            Some (device\<lparr>port := p'\<rparr>), True)
     \<and> trace p' = trace (port device)
          @ [SerialWrite [0x98, 0x00], SerialDrain, SerialRead 14 n bs, SerialClose]"
proof -
  obtain rc p1 where h: "oceanic_veo250_handshake (port device) = (rc, p1)"
    by (cases "oceanic_veo250_handshake (port device)")
  from handshake_trace [OF h] obtain n bs where e:
    "trace p1 = trace (port device) @ [SerialWrite [0x98, 0x00], SerialDrain, SerialRead 14 n bs]"
    "close_result p1 = close_result (port device)"
    by blast
  let ?p' = "p1\<lparr>trace := trace p1 @ [SerialClose]\<rparr>"
  have c: "oceanic_veo250_device_close abstract
         = (if close_result (port device) = - 1 then DEVICE_STATUS_IO
            else DEVICE_STATUS_SUCCESS,
            Some (device\<lparr>port := ?p'\<rparr>), True)"
    using assms h e(2)
    by (simp add: oceanic_veo250_device_close_def device_is_oceanic_veo250_def
          serial_close_def)
  have t: "trace ?p' = trace (port device)
          @ [SerialWrite [0x98, 0x00], SerialDrain, SerialRead 14 n bs, SerialClose]"
    using e(1) by simp
  from c t show ?thesis by blast
qed

theorem close_releases_witness:
  "fst (oceanic_veo250_device_close
          (Some \<lparr>backend = oceanic_veo250_device_backend, port = script_port []\<rparr>))
     = DEVICE_STATUS_SUCCESS
   \<and> fst (oceanic_veo250_handshake (script_port [])) = DEVICE_STATUS_TIMEOUT
   \<and> oceanic_veo250_device_close
        (Some \<lparr>backend = oceanic_veo250_device_backend,
               port = (script_port [Delivers handshake_response])\<lparr>close_result := - 1\<rparr>\<rparr>)
     = (DEVICE_STATUS_IO,
        Some \<lparr>backend = oceanic_veo250_device_backend,
              port = \<lparr>incoming = [], write_results = [], drain_results = [],
                      close_result = - 1,
                      trace = [SerialWrite [0x98, 0x00], SerialDrain,
                               SerialRead 14 14 handshake_response, SerialClose]\<rparr>\<rparr>,
        True)"
proof -
  let ?d1 = "\<lparr>backend = oceanic_veo250_device_backend, port = script_port []\<rparr>"
  let ?d2 = "\<lparr>backend = oceanic_veo250_device_backend,
               port = (script_port [Delivers handshake_response])\<lparr>close_result := - 1\<rparr>\<rparr>"
  have b1: "backend ?d1 = oceanic_veo250_device_backend"
    and b2: "backend ?d2 = oceanic_veo250_device_backend"
    by simp_all
  have t: "fst (oceanic_veo250_handshake (script_port [])) = DEVICE_STATUS_TIMEOUT"
    by code_simp
  have c2: "snd (oceanic_veo250_device_close (Some ?d2))
     = (Some \<lparr>backend = oceanic_veo250_device_backend,
              port = \<lparr>incoming = [], write_results = [], drain_results = [],
                      close_result = - 1,
                      trace = [SerialWrite [0x98, 0x00], SerialDrain,
                               SerialRead 14 14 handshake_response, SerialClose]\<rparr>\<rparr>,
        True)"
    by code_simp
  from close_releases [OF refl b1] close_releases [OF refl b2] t c2
  show ?thesis by (auto simp: script_port_def)
qed

subsection \<open>C9: init\<close>

text \<open>
  C9. The init command is the two bytes 0x55 0x00, it is written and drained and nothing
  is read. On a port whose write and drain both fail (each returns -1) init still returns
  \<open>DEVICE_STATUS_SUCCESS\<close>: \<open>oceanic_veo250_send\<close> drops the results of
  \<^verbatim>\<open>serial_write\<close> and \<^verbatim>\<open>serial_drain\<close>, so the test of its status in init never
  fires.
\<close>

theorem init_ignores_send_failure:
  "fst (serial_write \<lparr>incoming = [], write_results = [- 1], drain_results = [- 1],
                       close_result = 0, trace = []\<rparr> [0x55, 0x00]) = - 1
   \<and> fst (oceanic_veo250_init \<lparr>incoming = [], write_results = [- 1], drain_results = [- 1],
                                close_result = 0, trace = []\<rparr>) = DEVICE_STATUS_SUCCESS
   \<and> trace (snd (oceanic_veo250_init \<lparr>incoming = [], write_results = [- 1],
                    drain_results = [- 1], close_result = 0, trace = []\<rparr>))
       = [SerialWrite [0x55, 0x00], SerialDrain]"
  by (simp add: oceanic_veo250_init_def oceanic_veo250_send_def serial_write_def
        serial_drain_def)

subsection \<open>C10: the type test\<close>

text \<open>
  C10. On a handle that is \<^verbatim>\<open>NULL\<close> or whose backend is not the Veo 250 backend, each of
  version, read, dump and close returns \<open>DEVICE_STATUS_TYPE_MISMATCH\<close>; the object
  behind the handle (its port with it: no call is made) and the caller's buffer and result
  location are as they were, and nothing is freed.
\<close>

theorem type_mismatch_first:
  assumes "abstract = None
           \<or> (\<exists>d. abstract = Some d \<and> backend d \<noteq> oceanic_veo250_device_backend)"
  shows "oceanic_veo250_device_version PACKET_SIZE abstract data sz
           = (Returned DEVICE_STATUS_TYPE_MISMATCH, data, abstract)
       \<and> oceanic_veo250_device_read PACKET_SIZE abstract address data sz
           = Some (Returned DEVICE_STATUS_TYPE_MISMATCH, data, abstract)
       \<and> oceanic_veo250_device_dump PACKET_SIZE MEMORY_SIZE abstract data sz result
           = Some (Returned DEVICE_STATUS_TYPE_MISMATCH, data, abstract, result)
       \<and> oceanic_veo250_device_close abstract
           = (DEVICE_STATUS_TYPE_MISMATCH, abstract, False)"
proof -
  from assms have "\<not> device_is_oceanic_veo250 abstract"
    by (auto simp: device_is_oceanic_veo250_def)
  then show ?thesis
    by (simp add: oceanic_veo250_device_version_def oceanic_veo250_device_read_def
          oceanic_veo250_device_dump_def oceanic_veo250_device_close_def)
qed

theorem type_mismatch_first_witness:
  "oceanic_veo250_device_read 8 None 0 [7, 7, 7, 7, 7, 7, 7, 7] 8
     = Some (Returned DEVICE_STATUS_TYPE_MISMATCH, [7, 7, 7, 7, 7, 7, 7, 7], None)
   \<and> oceanic_veo250_device_close
        (Some \<lparr>backend = other_device_backend 1, port = script_port [Delivers [ACK]]\<rparr>)
     = (DEVICE_STATUS_TYPE_MISMATCH,
        Some \<lparr>backend = other_device_backend 1, port = script_port [Delivers [ACK]]\<rparr>, False)
   \<and> oceanic_veo250_device_dump 8 32768
        (Some \<lparr>backend = other_device_backend 1, port = script_port [Delivers [ACK]]\<rparr>)
        [] 0 (Some 5)
     = Some (Returned DEVICE_STATUS_TYPE_MISMATCH, [],
        Some \<lparr>backend = other_device_backend 1, port = script_port [Delivers [ACK]]\<rparr>,
        Some 5)"
proof -
  let ?d = "\<lparr>backend = other_device_backend 1, port = script_port [Delivers [ACK]]\<rparr>"
  have h1: "(None :: device option) = None
           \<or> (\<exists>d. (None :: device option) = Some d
                   \<and> backend d \<noteq> oceanic_veo250_device_backend)"
    by simp
  have h2: "Some ?d = None
           \<or> (\<exists>d. Some ?d = Some d \<and> backend d \<noteq> oceanic_veo250_device_backend)"
    by simp
  from type_mismatch_first [OF h1, of 8 "[7, 7, 7, 7, 7, 7, 7, 7]" 8 0]
       type_mismatch_first [OF h2, of 8 "[]" 0 0 32768 "Some 5"]
  show ?thesis by simp
qed

end
